theory Spec2Isabelle
  imports Complex_Main "HOL-Library.FSet" "HOL-Library.Finite_Map"
begin

section \<open>Progress diagnostics of the distributed scheduler\<close>

text \<open>
  A shallow embedding of \<^verbatim>\<open>distributed/diagnostics.py\<close>: the closure computation
  \<^verbatim>\<open>dependent_keys\<close>, the tracker classes \<^verbatim>\<open>Progress\<close> and \<^verbatim>\<open>MultiProgress\<close>, the
  label function \<^verbatim>\<open>key_split\<close> and the formatter \<^verbatim>\<open>format_time\<close>.

  Python sets are finite sets (\<open>'a fset\<close>), Python dicts are finite maps
  (\<open>('k, 'v) fmap\<close>), \<^verbatim>\<open>None\<close> is \<open>None\<close>, an exception raised is an \<open>Inl\<close> result.
  Mutation of \<^verbatim>\<open>self\<close> and of the scheduler is explicit state passing: a method takes
  the tracker and the scheduler and returns both.
\<close>

subsection \<open>The closure computation \<^verbatim>\<open>dependent_keys\<close> (lines 56--71)\<close>

text \<open>
  \<^verbatim>\<open>who_has.get(key)\<close> is truthy when the key has an entry and the entry, a set of workers,
  is not empty.
\<close>

definition truthy_workers :: "'w fset option \<Rightarrow> bool" where
  "truthy_workers r = (case r of None \<Rightarrow> False | Some ws \<Rightarrow> ws \<noteq> {||})"

text \<open>\<^verbatim>\<open>dependencies.get(key, [])\<close>; the value is iterated in some order, here a list.\<close>

definition get_or_empty :: "('k, 'k list) fmap \<Rightarrow> 'k \<Rightarrow> 'k list" where
  "get_or_empty dependencies key =
     (case fmlookup dependencies key of None \<Rightarrow> [] | Some ds \<Rightarrow> ds)"

text \<open>
  Every key the loop can ever hold: those on the stack and those that occur as a value of
  the (finite) dictionary. It bounds the number of keys added to \<open>out\<close>.
\<close>

definition universe :: "('k, 'k list) fmap \<Rightarrow> 'k list \<Rightarrow> 'k fset" where
  "universe dependencies stack =
     fset_of_list stack |\<union>| ffUnion (fset_of_list |`| fmran dependencies)"

text \<open>
  The \<^verbatim>\<open>while stack:\<close> loop. The stack is a Python list: \<^verbatim>\<open>pop()\<close> takes the last
  element, \<^verbatim>\<open>extend\<close> appends. The three \<^verbatim>\<open>if\<close>s are in the order of the source.
\<close>

function dependent_keys_loop ::
  "('k, 'w fset) fmap \<Rightarrow> 'k fset \<Rightarrow> ('k, 's) fmap \<Rightarrow> ('k, 'k list) fmap \<Rightarrow> bool
     \<Rightarrow> 'k list \<Rightarrow> 'k fset \<Rightarrow> 'k fset" where
  "dependent_keys_loop who_has processing stacks dependencies complete' stack out =
     (if stack = [] then out
      else if last stack |\<in>| out then
        dependent_keys_loop who_has processing stacks dependencies complete' (butlast stack) out
      else if \<not> complete' \<and> (truthy_workers (fmlookup who_has (last stack)) \<or>
                              last stack |\<in>| processing \<or>
                              last stack |\<in>| fmdom stacks) then
        dependent_keys_loop who_has processing stacks dependencies complete' (butlast stack) out
      else
        dependent_keys_loop who_has processing stacks dependencies complete'
          (butlast stack @ get_or_empty dependencies (last stack)) (finsert (last stack) out))"
  by pat_completeness auto

lemma in_ffUnion: "x |\<in>| A \<Longrightarrow> x |\<subseteq>| ffUnion A"
proof -
  assume "x |\<in>| A"
  then have "finsert x A = A" by (rule finsert_absorb)
  then have "ffUnion A = x |\<union>| ffUnion A" by (metis ffunion_insert)
  then show ?thesis by (metis funion_upper1)
qed

lemma get_or_empty_universe:
  "fset_of_list (get_or_empty dependencies key)
     |\<subseteq>| ffUnion (fset_of_list |`| fmran dependencies)"
proof (cases "fmlookup dependencies key")
  case None
  then show ?thesis by (simp add: get_or_empty_def)
next
  case (Some ds)
  then have "fset_of_list ds |\<in>| fset_of_list |`| fmran dependencies"
    by (simp add: fmranI)
  then show ?thesis using Some by (simp add: get_or_empty_def in_ffUnion)
qed

lemma universe_butlast: "stack \<noteq> [] \<Longrightarrow> universe d (butlast stack) |\<subseteq>| universe d stack"
  unfolding universe_def by (auto simp: fset_of_list_elem dest: in_set_butlastD)

lemma universe_extend:
  "stack \<noteq> [] \<Longrightarrow>
   universe d (butlast stack @ get_or_empty d (last stack)) |\<subseteq>| universe d stack"
  using get_or_empty_universe[of d "last stack"]
  unfolding universe_def by (auto simp: fset_of_list_elem dest: in_set_butlastD)

lemma last_in_universe: "stack \<noteq> [] \<Longrightarrow> last stack |\<in>| universe d stack"
  unfolding universe_def by (simp add: fset_of_list_elem)

text \<open>
  The loop terminates on every input: either a new key enters \<open>out\<close>, and fewer keys of the
  universe remain outside it, or the stack gets shorter.
\<close>

termination dependent_keys_loop
proof (relation "measures [\<lambda>(wh, pr, st, d, c, stack, out). fcard (universe d stack |-| out),
                           \<lambda>(wh, pr, st, d, c, stack, out). length stack]", goal_cases)
  case 1 show ?case by simp
next
  case (2 wh pr st d c stack out)
  have "fcard (universe d (butlast stack) |-| out) \<le> fcard (universe d stack |-| out)"
    using universe_butlast[OF 2(1), of d] by (intro fcard_mono) auto
  with 2 show ?case by (auto simp: le_less)
next
  case (3 wh pr st d c stack out)
  have "fcard (universe d (butlast stack) |-| out) \<le> fcard (universe d stack |-| out)"
    using universe_butlast[OF 3(1), of d] by (intro fcard_mono) auto
  with 3 show ?case by (auto simp: le_less)
next
  case (4 wh pr st d c stack out)
  have "universe d (butlast stack @ get_or_empty d (last stack)) |-| finsert (last stack) out
        |\<subset>| universe d stack |-| out"
    using universe_extend[OF 4(1), of d] last_in_universe[OF 4(1), of d] 4(2) by auto
  then show ?case by (simp add: pfsubset_fcard_mono)
qed

declare dependent_keys_loop.simps [simp del]

text \<open>\<^verbatim>\<open>out = set(); stack = list(keys)\<close>, then the loop, then \<^verbatim>\<open>return out\<close>.\<close>

definition dependent_keys ::
  "'k list \<Rightarrow> ('k, 'w fset) fmap \<Rightarrow> 'k fset \<Rightarrow> ('k, 's) fmap \<Rightarrow> ('k, 'k list) fmap \<Rightarrow> bool
     \<Rightarrow> 'k fset" where
  "dependent_keys keys who_has processing stacks dependencies complete' =
     dependent_keys_loop who_has processing stacks dependencies complete' keys {||}"

text \<open>
  The notions the properties are stated with. A key is \<^emph>\<open>satisfied\<close> when it has a
  non-empty \<^verbatim>\<open>who_has\<close> entry, or is in \<^verbatim>\<open>processing\<close>, or is in \<^verbatim>\<open>stacks\<close>; the traversal
  passes over (\<^emph>\<open>skips\<close>) a satisfied key unless \<^verbatim>\<open>complete\<close> is set.
\<close>

definition satisfied :: "('k, 'w fset) fmap \<Rightarrow> 'k fset \<Rightarrow> ('k, 's) fmap \<Rightarrow> 'k \<Rightarrow> bool" where
  "satisfied who_has processing stacks key \<longleftrightarrow>
     (\<exists>ws. fmlookup who_has key = Some ws \<and> ws \<noteq> {||}) \<or>
     key |\<in>| processing \<or> key |\<in>| fmdom stacks"

definition skipped ::
  "('k, 'w fset) fmap \<Rightarrow> 'k fset \<Rightarrow> ('k, 's) fmap \<Rightarrow> bool \<Rightarrow> 'k \<Rightarrow> bool" where
  "skipped who_has processing stacks complete' key \<longleftrightarrow>
     \<not> complete' \<and> satisfied who_has processing stacks key"

text \<open>The keys reachable from the targets \<open>T\<close> along the dependencies.\<close>

inductive_set reachable :: "('k, 'k list) fmap \<Rightarrow> 'k set \<Rightarrow> 'k set"
  for dependencies T where
  target: "k \<in> T \<Longrightarrow> k \<in> reachable dependencies T"
| via: "k \<in> reachable dependencies T \<Longrightarrow> d \<in> set (get_or_empty dependencies k)
          \<Longrightarrow> d \<in> reachable dependencies T"

text \<open>The keys reachable from the targets along paths on which no key is skipped.\<close>

inductive_set needed ::
  "('k, 'w fset) fmap \<Rightarrow> 'k fset \<Rightarrow> ('k, 's) fmap \<Rightarrow> ('k, 'k list) fmap \<Rightarrow> bool
     \<Rightarrow> 'k set \<Rightarrow> 'k set"
  for who_has processing stacks dependencies complete' T where
  root: "k \<in> T \<Longrightarrow> \<not> skipped who_has processing stacks complete' k
           \<Longrightarrow> k \<in> needed who_has processing stacks dependencies complete' T"
| dep: "k \<in> needed who_has processing stacks dependencies complete' T
           \<Longrightarrow> d \<in> set (get_or_empty dependencies k)
           \<Longrightarrow> \<not> skipped who_has processing stacks complete' d
           \<Longrightarrow> d \<in> needed who_has processing stacks dependencies complete' T"

text \<open>The invariant of the loop: whatever is in \<open>out\<close> was not skipped, and each of its
  dependencies is skipped, in \<open>out\<close>, or still waiting in \<open>S\<close> (the stack).\<close>

definition closed_but ::
  "('k, 'w fset) fmap \<Rightarrow> 'k fset \<Rightarrow> ('k, 's) fmap \<Rightarrow> ('k, 'k list) fmap \<Rightarrow> bool
     \<Rightarrow> 'k set \<Rightarrow> 'k fset \<Rightarrow> bool" where
  "closed_but wh pr st d c S out \<longleftrightarrow>
     (\<forall>k. k |\<in>| out \<longrightarrow> \<not> skipped wh pr st c k \<and>
        (\<forall>x \<in> set (get_or_empty d k). skipped wh pr st c x \<or> x |\<in>| out \<or> x \<in> S))"

subsection \<open>The scheduler, as far as a tracker reads and changes it\<close>

text \<open>
  The scheduler class is not part of this file. A tracker reads the attributes below and
  changes one, the list of registered plugins \<^verbatim>\<open>diagnostics\<close>. Of the task graph \<^verbatim>\<open>dask\<close>
  only the keys matter (\<^verbatim>\<open>keys.issubset(scheduler.dask)\<close>). A plugin object is known by its
  identity, a number.
\<close>

record ('k, 'w, 's) scheduler =
  dask :: "'k fset"
  in_play :: "'k fset"
  who_has :: "('k, 'w fset) fmap"
  processing :: "'k fset"
  stacks :: "('k, 's) fmap"
  waiting :: "('k, 'k list) fmap"
  diagnostics :: "nat list"

text \<open>
  Modelled from the spec: \<^verbatim>\<open>scheduler.add_diagnostic\<close>, a method of the scheduler that is
  not in this file. The spec describes the plugins as ``a mutable ordered collection of
  registered plugins supporting add/remove'': adding appends.
\<close>

definition add_diagnostic :: "nat \<Rightarrow> ('k, 'w, 's) scheduler \<Rightarrow> ('k, 'w, 's) scheduler" where
  "add_diagnostic plugin scheduler =
     scheduler\<lparr>diagnostics := diagnostics scheduler @ [plugin]\<rparr>"

subsection \<open>The class \<^verbatim>\<open>Progress\<close> (lines 74--151)\<close>

text \<open>\<^verbatim>\<open>self.status\<close> is \<^verbatim>\<open>None\<close>, \<^verbatim>\<open>'finished'\<close> or \<^verbatim>\<open>'error'\<close>.\<close>

datatype status = Finished | Error

text \<open>
  The attributes of a tracker that the methods below read or write. \<^verbatim>\<open>keys\<close> and
  \<^verbatim>\<open>all_keys\<close> are sets in \<^verbatim>\<open>Progress\<close> and dictionaries of sets in \<^verbatim>\<open>MultiProgress\<close>,
  hence the type parameter. The timing attributes (\<^verbatim>\<open>_start_time\<close>, \<^verbatim>\<open>_minimum\<close>, \<^verbatim>\<open>_dt\<close>,
  \<^verbatim>\<open>last_duration\<close>, \<^verbatim>\<open>_running\<close>) are read by the display subclasses only.
\<close>

record 'ks progress =
  ident :: nat
  keys :: 'ks
  all_keys :: 'ks
  status :: "status option"

text \<open>An element of the \<^verbatim>\<open>keys\<close> argument: a future (an object with a \<^verbatim>\<open>key\<close> attribute)
  or a bare key. Line 77 replaces each future by its key.\<close>

datatype 'k arg = Key 'k | Future 'k

fun arg_key :: "'k arg \<Rightarrow> 'k" where
  "arg_key (Future k) = k"
| "arg_key (Key k) = k"

text \<open>The two \<^verbatim>\<open>ValueError\<close>s of the constructor, with what the message names.\<close>

datatype 'k error = Can_not_find_scheduler | Keys_not_found "'k fset"

text \<open>
  Lines 87--92, the wait for the keys. The scheduler runs in another thread, and the
  clock runs: both are inputs. \<open>scheduler\<close> is the scheduler as the loop condition sees
  it; each \<^verbatim>\<open>time.sleep(0.01)\<close> takes the next element of \<open>sleeps\<close>, the reading of
  \<^verbatim>\<open>time.time()\<close> after the sleep and the scheduler as it is then. Times are the
  rationals the floats denote. The loop has no bound of its own; the result is \<open>None\<close>
  when the given observations run out before it ends.
\<close>

fun wait_for_keys ::
  "'k fset \<Rightarrow> rat \<Rightarrow> ('k, 'w, 's) scheduler \<Rightarrow> (rat \<times> ('k, 'w, 's) scheduler) list
     \<Rightarrow> ('k error \<times> ('k, 'w, 's) scheduler + ('k, 'w, 's) scheduler) option" where
  "wait_for_keys ks start scheduler sleeps =
     (if ks |\<subseteq>| dask scheduler then Some (Inr scheduler)
      else (case sleeps of
              [] \<Rightarrow> None
            | (now, scheduler') # sleeps' \<Rightarrow>
                if now > start + 1
                then Some (Inl (Keys_not_found (ks |-| in_play scheduler'), scheduler'))
                else wait_for_keys ks start scheduler' sleeps'))"

declare wait_for_keys.simps [simp del]

text \<open>
  Lines 105--110, the function \<^verbatim>\<open>f\<close> run on the scheduler's thread, and line 117.
  \<open>ks\<close> is \<^verbatim>\<open>list(keys)\<close>, an enumeration of the set of target keys.
\<close>

definition Progress_f ::
  "nat \<Rightarrow> 'k list \<Rightarrow> ('k, 'w, 's) scheduler \<Rightarrow> 'k fset progress \<times> ('k, 'w, 's) scheduler" where
  "Progress_f self ks scheduler =
     (let scheduler' = add_diagnostic self scheduler;
          pending = dependent_keys ks (who_has scheduler') (processing scheduler')
                      (stacks scheduler') (waiting scheduler') False
      in (\<lparr>ident = self, keys = pending, all_keys = pending |\<union>| fset_of_list ks,
           status = None\<rparr>, scheduler'))"

text \<open>
  \<^verbatim>\<open>Progress.__init__\<close>. \<open>scheduler\<close> is the argument (\<open>None\<close> when not given),
  \<open>default_executor\<close> the scheduler of \<^verbatim>\<open>default_executor()\<close> (\<open>None\<close> when there is no
  executor), \<open>self\<close> the identity of the new object, \<open>start\<close> the first reading of the
  clock. An exception is \<open>Inl\<close>, with the scheduler as the constructor leaves it; success
  is \<open>Inr\<close> with the tracker and the scheduler.
\<close>

definition Progress_init ::
  "'k arg list \<Rightarrow> ('k, 'w, 's) scheduler option \<Rightarrow> ('k, 'w, 's) scheduler option \<Rightarrow> nat \<Rightarrow> rat
     \<Rightarrow> (rat \<times> ('k, 'w, 's) scheduler) list
     \<Rightarrow> ('k error \<times> ('k, 'w, 's) scheduler option
          + 'k fset progress \<times> ('k, 'w, 's) scheduler) option" where
  "Progress_init args scheduler default_executor self start sleeps =
     (let ks = remdups (map arg_key args) in
      case (case scheduler of None \<Rightarrow> default_executor | Some s \<Rightarrow> Some s) of
        None \<Rightarrow> Some (Inl (Can_not_find_scheduler, None))
      | Some scheduler0 \<Rightarrow>
          (case wait_for_keys (fset_of_list ks) start scheduler0 sleeps of
             None \<Rightarrow> None
           | Some (Inl (e, scheduler')) \<Rightarrow> Some (Inl (e, Some scheduler'))
           | Some (Inr scheduler') \<Rightarrow> Some (Inr (Progress_f self ks scheduler'))))"

text \<open>
  What a caller passes as \<^verbatim>\<open>exception\<close>: \<^verbatim>\<open>None\<close>, or an object together with the truth
  value \<^verbatim>\<open>bool\<close> gives it. An exception instance is truthy unless its class defines
  \<^verbatim>\<open>__bool__\<close> or \<^verbatim>\<open>__len__\<close> otherwise; the empty string is falsy.
\<close>

datatype 'e payload = Py_None | Py_object bool 'e

fun truthy :: "'e payload \<Rightarrow> bool" where
  "truthy Py_None = False"
| "truthy (Py_object b e) = b"

text \<open>
  \<^verbatim>\<open>Progress.stop\<close> (lines 141--147). Line 144, \<^verbatim>\<open>if exception:\<close>, tests the truth value
  of the argument. The \<^verbatim>\<open>key\<close> argument is not used. \<^verbatim>\<open>list.remove\<close> removes the first
  occurrence.
\<close>

definition Progress_stop ::
  "('ks, 'z) progress_scheme \<Rightarrow> ('k, 'w, 's) scheduler \<Rightarrow> 'e payload \<Rightarrow> 'k option
     \<Rightarrow> ('ks, 'z) progress_scheme \<times> ('k, 'w, 's) scheduler" where
  "Progress_stop self scheduler exception key =
     (let scheduler' =
            (if ident self \<in> set (diagnostics scheduler)
             then scheduler\<lparr>diagnostics := remove1 (ident self) (diagnostics scheduler)\<rparr>
             else scheduler)
      in if truthy exception
         then (self\<lparr>status := Some Error\<rparr>, scheduler')
         else (self\<lparr>status := Some Finished\<rparr>, scheduler'))"

text \<open>\<^verbatim>\<open>Progress.task_finished\<close> (lines 129--134).\<close>

definition Progress_task_finished ::
  "'k fset progress \<Rightarrow> ('k, 'w, 's) scheduler \<Rightarrow> 'k \<Rightarrow> 'w \<Rightarrow> nat
     \<Rightarrow> 'k fset progress \<times> ('k, 'w, 's) scheduler" where
  "Progress_task_finished self scheduler key worker nbytes =
     (let self' = (if key |\<in>| keys self then self\<lparr>keys := keys self |-| {|key|}\<rparr> else self)
      in if keys self' = {||}
         then Progress_stop self' scheduler (Py_None :: unit payload) None
         else (self', scheduler))"

text \<open>\<^verbatim>\<open>Progress.task_erred\<close> (lines 136--139).\<close>

definition Progress_task_erred ::
  "'k fset progress \<Rightarrow> ('k, 'w, 's) scheduler \<Rightarrow> 'k \<Rightarrow> 'w \<Rightarrow> 'e payload
     \<Rightarrow> 'k fset progress \<times> ('k, 'w, 's) scheduler" where
  "Progress_task_erred self scheduler key worker exception =
     (if key |\<in>| all_keys self
      then Progress_stop self scheduler exception (Some key)
      else (self, scheduler))"

text \<open>
  The callbacks a scheduler delivers to a tracker, and a tracker receiving a sequence of
  them, for stating what holds after any number of callbacks.
\<close>

datatype ('k, 'w, 'e) callback =
  Task_finished 'k 'w nat
| Task_erred 'k 'w "'e payload"

fun deliver ::
  "'k fset progress \<times> ('k, 'w, 's) scheduler \<Rightarrow> ('k, 'w, 'e) callback
     \<Rightarrow> 'k fset progress \<times> ('k, 'w, 's) scheduler" where
  "deliver (self, scheduler) (Task_finished key worker nbytes) =
     Progress_task_finished self scheduler key worker nbytes"
| "deliver (self, scheduler) (Task_erred key worker exception) =
     Progress_task_erred self scheduler key worker exception"

subsection \<open>The label function \<^verbatim>\<open>key_split\<close> (lines 154--170)\<close>

text \<open>
  The keys \<^verbatim>\<open>key_split\<close> tells apart: a string, a tuple, and anything else (an integer,
  \<^verbatim>\<open>None\<close>), on which \<^verbatim>\<open>rsplit\<close> fails and the bare \<^verbatim>\<open>except\<close> answers \<^verbatim>\<open>'Other'\<close>.
\<close>

datatype pykey = KStr string | KTuple "pykey list" | KInt int | KNone

datatype py_exception = IndexError

text \<open>\<^verbatim>\<open>s.rsplit('-', 1)[0]\<close>: what stands before the last hyphen, all of \<open>s\<close> when it
  has none.\<close>

definition rsplit_hyphen_first :: "string \<Rightarrow> string" where
  "rsplit_hyphen_first s =
     (if CHR ''-'' \<in> set s
      then rev (tl (dropWhile (\<lambda>c. c \<noteq> CHR ''-'') (rev s)))
      else s)"

text \<open>The tuple case is outside the \<^verbatim>\<open>try\<close>: \<^verbatim>\<open>s[0]\<close> on the empty tuple raises.\<close>

fun key_split :: "pykey \<Rightarrow> py_exception + string" where
  "key_split (KTuple []) = Inl IndexError"
| "key_split (KTuple (x # xs)) = key_split x"
| "key_split (KStr s) = Inr (rsplit_hyphen_first s)"
| "key_split (KInt i) = Inr ''Other''"
| "key_split KNone = Inr ''Other''"

subsection \<open>The class \<^verbatim>\<open>MultiProgress\<close> (lines 173--207)\<close>

text \<open>
  \<^verbatim>\<open>valmap(set, groupby(func, keys))\<close> of the library toolz: the dictionary that maps each
  value \<open>func\<close> takes on \<open>keys\<close> to the set of the keys with that value.
\<close>

setup_lifting type_definition_fmap

lift_definition valmap_set_groupby :: "('k \<Rightarrow> 'l) \<Rightarrow> 'k fset \<Rightarrow> ('l, 'k fset) fmap" is
  "\<lambda>f ks l. if l |\<in>| f |`| ks then Some (ffilter (\<lambda>k. f k = l) ks) else None"
proof -
  fix f :: "'k \<Rightarrow> 'l" and ks :: "'k fset"
  have "dom (\<lambda>l. if l |\<in>| f |`| ks then Some (ffilter (\<lambda>k. f k = l) ks) else None)
          \<subseteq> fset (f |`| ks)"
    by (auto split: if_splits)
  then show "finite (dom (\<lambda>l. if l |\<in>| f |`| ks then Some (ffilter (\<lambda>k. f k = l) ks) else None))"
    by (rule finite_subset) simp
qed

text \<open>
  The same with a label function that may raise. The keys are a set, iterated in no
  known order: when the function raises on some of them, the exception that comes out is
  one of those it raises.
\<close>

definition group_keys :: "('k \<Rightarrow> 'x + 'l) \<Rightarrow> 'k fset \<Rightarrow> 'x fset + ('l, 'k fset) fmap" where
  "group_keys f ks =
     (if fBex ks (\<lambda>k. isl (f k))
      then Inl ((projl \<circ> f) |`| ffilter (\<lambda>k. isl (f k)) ks)
      else Inr (valmap_set_groupby (projr \<circ> f) ks))"

text \<open>A \<^verbatim>\<open>MultiProgress\<close> is a \<^verbatim>\<open>Progress\<close> with the attribute \<^verbatim>\<open>func\<close>; its \<^verbatim>\<open>keys\<close> and
  \<^verbatim>\<open>all_keys\<close> are dictionaries from labels to sets of keys.\<close>

record ('ks, 'k, 'x, 'l) multi_progress = "'ks progress" +
  func :: "'k \<Rightarrow> 'x + 'l"

datatype ('k, 'x) multi_error = Progress_error "'k error" | Func_raised "'x fset"

text \<open>\<^verbatim>\<open>MultiProgress.__init__\<close> (lines 188--192).\<close>

definition MultiProgress_init ::
  "'k arg list \<Rightarrow> ('k, 'w, 's) scheduler option \<Rightarrow> ('k \<Rightarrow> 'x + 'l)
     \<Rightarrow> ('k, 'w, 's) scheduler option \<Rightarrow> nat \<Rightarrow> rat \<Rightarrow> (rat \<times> ('k, 'w, 's) scheduler) list
     \<Rightarrow> (('k, 'x) multi_error \<times> ('k, 'w, 's) scheduler option
          + (('l, 'k fset) fmap, 'k, 'x, 'l) multi_progress \<times> ('k, 'w, 's) scheduler) option" where
  "MultiProgress_init args scheduler f default_executor self start sleeps =
     (case Progress_init args scheduler default_executor self start sleeps of
        None \<Rightarrow> None
      | Some (Inl (e, scheduler')) \<Rightarrow> Some (Inl (Progress_error e, scheduler'))
      | Some (Inr (p, scheduler')) \<Rightarrow>
          (case group_keys f (keys p) of
             Inl xs \<Rightarrow> Some (Inl (Func_raised xs, Some scheduler'))
           | Inr grouped_keys \<Rightarrow>
               (case group_keys f (all_keys p) of
                  Inl xs \<Rightarrow> Some (Inl (Func_raised xs, Some scheduler'))
                | Inr grouped_all_keys \<Rightarrow>
                    Some (Inr (\<lparr>ident = ident p, keys = grouped_keys,
                                all_keys = grouped_all_keys, status = status p, func = f\<rparr>,
                               scheduler')))))"

text \<open>\<^verbatim>\<open>MultiProgress.task_finished\<close> (lines 194--200). A set is truthy when it is not
  empty; \<^verbatim>\<open>any(self.keys.values())\<close> holds when some value is.\<close>

definition MultiProgress_task_finished ::
  "(('l, 'k fset) fmap, 'k, 'x, 'l) multi_progress \<Rightarrow> ('k, 'w, 's) scheduler \<Rightarrow> 'k \<Rightarrow> 'w \<Rightarrow> nat
     \<Rightarrow> 'x + (('l, 'k fset) fmap, 'k, 'x, 'l) multi_progress \<times> ('k, 'w, 's) scheduler" where
  "MultiProgress_task_finished self scheduler key worker nbytes =
     (case func self key of
        Inl x \<Rightarrow> Inl x
      | Inr label \<Rightarrow>
          (let self' =
                 (case fmlookup (keys self) label of
                    None \<Rightarrow> self
                  | Some s \<Rightarrow>
                      if s \<noteq> {||} \<and> key |\<in>| s
                      then self\<lparr>keys := fmupd label (s |-| {|key|}) (keys self)\<rparr>
                      else self)
           in Inr (if keys self' = fmempty \<or> \<not> fBex (fmran (keys self')) (\<lambda>s. s \<noteq> {||})
                   then Progress_stop self' scheduler (Py_None :: unit payload) None
                   else (self', scheduler))))"

text \<open>\<^verbatim>\<open>MultiProgress.task_erred\<close> (lines 202--207).\<close>

definition MultiProgress_task_erred ::
  "(('l, 'k fset) fmap, 'k, 'x, 'l) multi_progress \<Rightarrow> ('k, 'w, 's) scheduler \<Rightarrow> 'k \<Rightarrow> 'w
     \<Rightarrow> 'e payload
     \<Rightarrow> 'x + (('l, 'k fset) fmap, 'k, 'x, 'l) multi_progress \<times> ('k, 'w, 's) scheduler" where
  "MultiProgress_task_erred self scheduler key worker exception =
     (case func self key of
        Inl x \<Rightarrow> Inl x
      | Inr label \<Rightarrow>
          Inr (case fmlookup (all_keys self) label of
                 None \<Rightarrow> (self, scheduler)
               | Some s \<Rightarrow>
                   if key |\<in>| s
                   then Progress_stop self scheduler exception (Some key)
                   else (self, scheduler)))"

text \<open>
  A grouped tracker receiving a sequence of callbacks; an exception raised by the label
  function in a callback ends the sequence.
\<close>

fun deliver_multi ::
  "(('l, 'k fset) fmap, 'k, 'x, 'l) multi_progress \<times> ('k, 'w, 's) scheduler
     \<Rightarrow> ('k, 'w, 'e) callback
     \<Rightarrow> 'x + (('l, 'k fset) fmap, 'k, 'x, 'l) multi_progress \<times> ('k, 'w, 's) scheduler" where
  "deliver_multi (self, scheduler) (Task_finished key worker nbytes) =
     MultiProgress_task_finished self scheduler key worker nbytes"
| "deliver_multi (self, scheduler) (Task_erred key worker exception) =
     MultiProgress_task_erred self scheduler key worker exception"

fun deliver_multi_all ::
  "(('l, 'k fset) fmap, 'k, 'x, 'l) multi_progress \<times> ('k, 'w, 's) scheduler
     \<Rightarrow> ('k, 'w, 'e) callback list
     \<Rightarrow> 'x + (('l, 'k fset) fmap, 'k, 'x, 'l) multi_progress \<times> ('k, 'w, 's) scheduler" where
  "deliver_multi_all state [] = Inr state"
| "deliver_multi_all state (callback # callbacks) =
     (case deliver_multi state callback of
        Inl x \<Rightarrow> Inl x
      | Inr state' \<Rightarrow> deliver_multi_all state' callbacks)"

text \<open>
  A grouped tracker \<open>m\<close> that stands for the ungrouped tracker \<open>p\<close> under the label
  function \<open>f\<close>: same identity and status, \<^verbatim>\<open>all_keys\<close> grouped, each bucket of \<^verbatim>\<open>keys\<close> holding
  the pending keys of its label, and no pending key without a bucket.
\<close>

definition grouped_as ::
  "('k \<Rightarrow> 'x + 'l) \<Rightarrow> (('l, 'k fset) fmap, 'k, 'x, 'l) multi_progress \<Rightarrow> 'k fset progress \<Rightarrow> bool"
  where
  "grouped_as f m p \<longleftrightarrow>
     func m = f \<and> ident m = ident p \<and> status m = status p \<and>
     all_keys m = valmap_set_groupby (projr \<circ> f) (all_keys p) \<and>
     (\<forall>l b. fmlookup (keys m) l = Some b \<longrightarrow> b = ffilter (\<lambda>k. projr (f k) = l) (keys p)) \<and>
     (\<forall>k. k |\<in>| keys p \<longrightarrow> projr (f k) |\<in>| fmdom (keys m)) \<and>
     keys p |\<subseteq>| all_keys p \<and>
     (\<forall>k. k |\<in>| all_keys p \<longrightarrow> \<not> isl (f k))"

subsection \<open>The formatter \<^verbatim>\<open>format_time\<close> (lines 374--389)\<close>

text \<open>
  A float is the rational it denotes. \<^verbatim>\<open>divmod(x, y)\<close> for a positive \<open>y\<close>: the floor of
  the quotient and the remainder, which for floats of this size are exact.
\<close>

definition divmod :: "rat \<Rightarrow> rat \<Rightarrow> rat \<times> rat" where
  "divmod x y = (of_int \<lfloor>x / y\<rfloor>, x - y * of_int \<lfloor>x / y\<rfloor>)"

text \<open>The decimal digits of a natural number.\<close>

fun digits :: "nat \<Rightarrow> string" where
  "digits n = (if n < 10 then [''0123456789'' ! n]
               else digits (n div 10) @ [''0123456789'' ! (n mod 10)])"

declare digits.simps [simp del]

text \<open>Rounding to the nearest integer, a tie to the even one, as the conversion of a
  float to decimal digits does.\<close>

definition round_half_even :: "rat \<Rightarrow> int" where
  "round_half_even x =
     (let f = \<lfloor>x\<rfloor>; d = x - of_int f
      in if d < 1 / 2 then f
         else if d > 1 / 2 then f + 1
         else if even f then f else f + 1)"

text \<open>
  The format specification \<^verbatim>\<open>{:W.Pf}\<close> of \<^verbatim>\<open>str.format\<close>: fixed point with \<open>P\<close> digits
  after the point (no point when \<open>P\<close> is 0), a minus sign for a negative number, padded
  with spaces on the left to the width \<open>W\<close>.
\<close>

definition format_f :: "nat \<Rightarrow> nat \<Rightarrow> rat \<Rightarrow> string" where
  "format_f width precision x =
     (let n = nat (round_half_even (\<bar>x\<bar> * 10 ^ precision));
          whole = digits (n div 10 ^ precision);
          frac = digits (n mod 10 ^ precision);
          body = (if x < 0 then ''-'' else '''') @ whole @
                 (if precision = 0 then ''''
                  else ''.'' @ replicate (precision - length frac) CHR ''0'' @ frac)
      in replicate (width - length body) CHR '' '' @ body)"

definition format_time :: "rat \<Rightarrow> string" where
  "format_time t =
     (let (m, s) = divmod t 60;
          (h, m) = divmod m 60
      in if h \<noteq> 0 then format_f 2 0 h @ ''hr '' @ format_f 2 0 m @ ''min '' @ format_f 4 1 s @ ''s''
         else if m \<noteq> 0 then format_f 2 0 m @ ''min '' @ format_f 4 1 s @ ''s''
         else format_f 4 1 s @ ''s'')"

text \<open>The floats that the literals \<^verbatim>\<open>10.4\<close> and \<^verbatim>\<open>1000.4\<close> denote.\<close>

definition float_10_4 :: rat where
  "float_10_4 = 5854679515581645 / 562949953421312"

definition float_1000_4 :: rat where
  "float_1000_4 = 8799611459416883 / 8796093022208"

subsection \<open>Concrete inputs\<close>

text \<open>The linear chain of the scenarios: \<^verbatim>\<open>{a: [], b: [a], c: [b]}\<close>.\<close>

definition chain_dependencies :: "(string, string list) fmap" where
  "chain_dependencies = fmap_of_list [(''a'', []), (''b'', [''a'']), (''c'', [''b''])]"

definition nobody :: "(string, string fset) fmap" where
  "nobody = fmempty"

definition a_in_memory :: "(string, string fset) fmap" where
  "a_in_memory = fmap_of_list [(''a'', {|''worker-1''|})]"

definition no_stacks :: "(string, string list) fmap" where
  "no_stacks = fmempty"

text \<open>The scheduler of scenarios A and B: the chain, nothing computed yet, no plugin.\<close>

definition chain_scheduler :: "(string, string, string list) scheduler" where
  "chain_scheduler =
     \<lparr>dask = {|''a'', ''b'', ''c''|}, in_play = {|''a'', ''b'', ''c''|}, who_has = nobody,
      processing = {||}, stacks = no_stacks, waiting = chain_dependencies, diagnostics = []\<rparr>"

text \<open>A tracker for the target \<^verbatim>\<open>c\<close> on it, as the constructor leaves it.\<close>

definition chain_tracker ::
  "string fset progress \<times> (string, string, string list) scheduler" where
  "chain_tracker = Progress_f 1 [''c''] chain_scheduler"




text \<open>
  A scheduler whose graph has a key \<^verbatim>\<open>a\<close> that is not in play (no requested key needs it),
  and no key \<^verbatim>\<open>z\<close>.
\<close>

definition idle_scheduler :: "(string, string, string list) scheduler" where
  "idle_scheduler =
     \<lparr>dask = {|''a''|}, in_play = {||}, who_has = nobody,
      processing = {||}, stacks = no_stacks, waiting = fmempty, diagnostics = []\<rparr>"



text \<open>Scenario C: the keys \<^verbatim>\<open>x-1\<close>, \<^verbatim>\<open>x-2\<close>, \<^verbatim>\<open>y-1\<close>, without dependencies, not yet computed.\<close>

definition grouped_scheduler :: "(pykey, string, string list) scheduler" where
  "grouped_scheduler =
     \<lparr>dask = {|KStr ''x-1'', KStr ''x-2'', KStr ''y-1''|},
      in_play = {|KStr ''x-1'', KStr ''x-2'', KStr ''y-1''|},
      who_has = fmempty, processing = {||}, stacks = fmempty, waiting = fmempty,
      diagnostics = []\<rparr>"

definition grouped_args :: "pykey arg list" where
  "grouped_args = [Key (KStr ''x-1''), Key (KStr ''x-2''), Key (KStr ''y-1'')]"

definition grouped_keys :: "pykey fset" where
  "grouped_keys = {|KStr ''x-1'', KStr ''x-2'', KStr ''y-1''|}"

text \<open>The ungrouped and the grouped tracker that the constructors build for them.\<close>

definition ungrouped_tracker :: "pykey fset progress" where
  "ungrouped_tracker = \<lparr>ident = 1, keys = grouped_keys, all_keys = grouped_keys, status = None\<rparr>"

definition grouped_tracker ::
  "((string, pykey fset) fmap, pykey, py_exception, string) multi_progress" where
  "grouped_tracker =
     \<lparr>ident = 1, keys = valmap_set_groupby (projr \<circ> key_split) grouped_keys,
      all_keys = valmap_set_groupby (projr \<circ> key_split) grouped_keys, status = None,
      func = key_split\<rparr>"

text \<open>The grouped tracker after \<^verbatim>\<open>x-1\<close>, then \<^verbatim>\<open>x-2\<close>, then \<^verbatim>\<open>y-1\<close> have finished.\<close>

definition grouped_after_x1 ::
  "((string, pykey fset) fmap, pykey, py_exception, string) multi_progress" where
  "grouped_after_x1 =
     grouped_tracker\<lparr>keys := fmupd ''x'' {|KStr ''x-2''|} (keys grouped_tracker)\<rparr>"

definition grouped_after_x2 ::
  "((string, pykey fset) fmap, pykey, py_exception, string) multi_progress" where
  "grouped_after_x2 = grouped_after_x1\<lparr>keys := fmupd ''x'' {||} (keys grouped_after_x1)\<rparr>"

definition grouped_after_y1 ::
  "((string, pykey fset) fmap, pykey, py_exception, string) multi_progress" where
  "grouped_after_y1 =
     grouped_after_x2\<lparr>keys := fmupd ''y'' {||} (keys grouped_after_x2), status := Some Finished\<rparr>"

section \<open>Properties of the closure computation\<close>

lemma skipped_iff:
  "skipped wh pr st c key \<longleftrightarrow>
     (\<not> c \<and> (truthy_workers (fmlookup wh key) \<or> key |\<in>| pr \<or> key |\<in>| fmdom st))"
  by (auto simp: skipped_def satisfied_def truthy_workers_def split: option.splits)

text \<open>The four ways through one iteration of the loop.\<close>

lemma loop_Nil [simp]: "dependent_keys_loop wh pr st d c [] out = out"
  by (subst dependent_keys_loop.simps) simp

lemma loop_seen:
  "stack \<noteq> [] \<Longrightarrow> last stack |\<in>| out \<Longrightarrow>
   dependent_keys_loop wh pr st d c stack out = dependent_keys_loop wh pr st d c (butlast stack) out"
  by (subst dependent_keys_loop.simps) simp

lemma loop_skip:
  "stack \<noteq> [] \<Longrightarrow> last stack |\<notin>| out \<Longrightarrow> skipped wh pr st c (last stack) \<Longrightarrow>
   dependent_keys_loop wh pr st d c stack out = dependent_keys_loop wh pr st d c (butlast stack) out"
  by (subst dependent_keys_loop.simps) (simp add: skipped_iff)

lemma loop_add:
  "stack \<noteq> [] \<Longrightarrow> last stack |\<notin>| out \<Longrightarrow> \<not> skipped wh pr st c (last stack) \<Longrightarrow>
   dependent_keys_loop wh pr st d c stack out =
   dependent_keys_loop wh pr st d c (butlast stack @ get_or_empty d (last stack))
     (finsert (last stack) out)"
  by (subst dependent_keys_loop.simps) (auto simp: skipped_iff)

text \<open>Induction along the iterations, with the snapshot and the flag fixed.\<close>

lemma loop_induct [case_names Nil seen skip add]:
  assumes "\<And>out. P [] out"
    and "\<And>stack out. stack \<noteq> [] \<Longrightarrow> last stack |\<in>| out \<Longrightarrow> P (butlast stack) out
           \<Longrightarrow> P stack out"
    and "\<And>stack out. stack \<noteq> [] \<Longrightarrow> last stack |\<notin>| out \<Longrightarrow> skipped wh pr st c (last stack)
           \<Longrightarrow> P (butlast stack) out \<Longrightarrow> P stack out"
    and "\<And>stack out. stack \<noteq> [] \<Longrightarrow> last stack |\<notin>| out \<Longrightarrow> \<not> skipped wh pr st c (last stack)
           \<Longrightarrow> P (butlast stack @ get_or_empty d (last stack)) (finsert (last stack) out)
           \<Longrightarrow> P stack out"
  shows "P stack out"
proof -
  have "wh' = wh \<Longrightarrow> pr' = pr \<Longrightarrow> st' = st \<Longrightarrow> d' = d \<Longrightarrow> c' = c \<Longrightarrow> P stack out"
    for wh' :: "('a, 'b fset) fmap" and pr' and st' :: "('a, 'c) fmap" and d' c'
  proof (induction wh' pr' st' d' c' stack out rule: dependent_keys_loop.induct)
    case (1 wh' pr' st' d' c' stack out)
    note eqs = "1.prems"
    consider "stack = []"
      | "stack \<noteq> []" "last stack |\<in>| out"
      | "stack \<noteq> []" "last stack |\<notin>| out" "skipped wh pr st c (last stack)"
      | "stack \<noteq> []" "last stack |\<notin>| out" "\<not> skipped wh pr st c (last stack)"
      by blast
    then show ?case
    proof cases
      case 1 then show ?thesis using assms(1) by simp
    next
      case 2
      then have "P (butlast stack) out" using "1.IH"(1) eqs by blast
      with 2 show ?thesis using assms(2) by blast
    next
      case 3
      then have "P (butlast stack) out"
        using "1.IH"(2) eqs by (auto simp: skipped_iff)
      with 3 show ?thesis using assms(3) by blast
    next
      case 4
      then have "P (butlast stack @ get_or_empty d (last stack)) (finsert (last stack) out)"
        using "1.IH"(3) eqs by (auto simp: skipped_iff)
      with 4 show ?thesis using assms(4) by blast
    qed
  qed
  then show ?thesis by simp
qed

lemma in_set_split_last:
  "stack \<noteq> [] \<Longrightarrow> k \<in> set stack \<Longrightarrow> k \<in> set (butlast stack) \<or> k = last stack"
  by (induction stack) auto

text \<open>Nothing leaves \<open>out\<close>.\<close>

lemma loop_mono: "out |\<subseteq>| dependent_keys_loop wh pr st d c stack out"
proof (induction stack out rule: loop_induct[where wh=wh and pr=pr and st=st and c=c and d=d])
  case (Nil out) show ?case by simp
next
  case (seen stack out) then show ?case by (simp add: loop_seen)
next
  case (skip stack out) then show ?case by (simp add: loop_skip)
next
  case (add stack out) then show ?case by (simp add: loop_add)
qed

text \<open>Every key on the stack that is not skipped ends up in the result.\<close>

lemma loop_stack:
  "k \<in> set stack \<Longrightarrow> \<not> skipped wh pr st c k
     \<Longrightarrow> k |\<in>| dependent_keys_loop wh pr st d c stack out"
proof (induction stack out rule: loop_induct[where wh=wh and pr=pr and st=st and c=c and d=d])
  case (Nil out) then show ?case by simp
next
  case (seen stack out)
  note eq = loop_seen[OF seen.hyps, of wh pr st d c]
  have "k \<in> set (butlast stack) \<or> k = last stack"
    by (rule in_set_split_last[OF seen.hyps(1) seen.prems(1)])
  then show ?case
  proof
    assume "k \<in> set (butlast stack)"
    then show ?thesis using seen.IH seen.prems(2) eq by simp
  next
    assume "k = last stack"
    then have "k |\<in>| out" using seen.hyps by simp
    then show ?thesis by (rule fsubsetD[OF loop_mono])
  qed
next
  case (skip stack out)
  note eq = loop_skip[OF skip.hyps, of d]
  have "k \<in> set (butlast stack) \<or> k = last stack"
    by (rule in_set_split_last[OF skip.hyps(1) skip.prems(1)])
  then show ?case
  proof
    assume "k \<in> set (butlast stack)"
    then show ?thesis using skip.IH skip.prems(2) eq by simp
  next
    assume "k = last stack"
    then show ?thesis using skip.hyps(3) skip.prems(2) by simp
  qed
next
  case (add stack out)
  note eq = loop_add[OF add.hyps, of d]
  have "k \<in> set (butlast stack) \<or> k = last stack"
    by (rule in_set_split_last[OF add.hyps(1) add.prems(1)])
  then show ?case
  proof
    assume "k \<in> set (butlast stack)"
    then show ?thesis using add.IH add.prems(2) eq by simp
  next
    assume "k = last stack"
    then have "k |\<in>| finsert (last stack) out" by simp
    then have "k |\<in>| dependent_keys_loop wh pr st d c
                   (butlast stack @ get_or_empty d (last stack)) (finsert (last stack) out)"
      by (rule fsubsetD[OF loop_mono])
    then show ?thesis using eq by simp
  qed
qed

lemma closed_but_weaken:
  assumes "closed_but wh pr st d c S out"
    and "\<And>x. x \<in> S \<Longrightarrow> skipped wh pr st c x \<or> x |\<in>| out \<or> x \<in> S'"
  shows "closed_but wh pr st d c S' out"
  using assms unfolding closed_but_def by fast

lemma closed_but_add:
  assumes "closed_but wh pr st d c S out"
    and "\<not> skipped wh pr st c key"
    and "\<And>x. x \<in> S \<Longrightarrow> x = key \<or> x \<in> S'"
    and "set (get_or_empty d key) \<subseteq> S'"
  shows "closed_but wh pr st d c S' (finsert key out)"
  using assms unfolding closed_but_def by fastforce

text \<open>The invariant holds through the loop, so the result is closed under unskipped
  dependencies.\<close>

lemma loop_closed:
  "closed_but wh pr st d c (set stack) out \<Longrightarrow>
   closed_but wh pr st d c {} (dependent_keys_loop wh pr st d c stack out)"
proof (induction stack out rule: loop_induct[where wh=wh and pr=pr and st=st and c=c and d=d])
  case (Nil out) then show ?case by simp
next
  case (seen stack out)
  note eq = loop_seen[OF seen.hyps, of wh pr st d c]
  have "closed_but wh pr st d c (set (butlast stack)) out"
  proof (rule closed_but_weaken[OF seen.prems])
    fix x assume "x \<in> set stack"
    then have "x \<in> set (butlast stack) \<or> x = last stack"
      by (rule in_set_split_last[OF seen.hyps(1)])
    then show "skipped wh pr st c x \<or> x |\<in>| out \<or> x \<in> set (butlast stack)"
      using seen.hyps(2) by auto
  qed
  then show ?case using seen.IH eq by simp
next
  case (skip stack out)
  note eq = loop_skip[OF skip.hyps, of d]
  have "closed_but wh pr st d c (set (butlast stack)) out"
  proof (rule closed_but_weaken[OF skip.prems])
    fix x assume "x \<in> set stack"
    then have "x \<in> set (butlast stack) \<or> x = last stack"
      by (rule in_set_split_last[OF skip.hyps(1)])
    then show "skipped wh pr st c x \<or> x |\<in>| out \<or> x \<in> set (butlast stack)"
      using skip.hyps(3) by auto
  qed
  then show ?case using skip.IH eq by simp
next
  case (add stack out)
  note eq = loop_add[OF add.hyps, of d]
  have "closed_but wh pr st d c (set (butlast stack @ get_or_empty d (last stack)))
          (finsert (last stack) out)"
  proof (rule closed_but_add[OF add.prems add.hyps(3)])
    fix x assume "x \<in> set stack"
    then have "x \<in> set (butlast stack) \<or> x = last stack"
      by (rule in_set_split_last[OF add.hyps(1)])
    then show "x = last stack \<or> x \<in> set (butlast stack @ get_or_empty d (last stack))"
      by auto
  next
    show "set (get_or_empty d (last stack)) \<subseteq> set (butlast stack @ get_or_empty d (last stack))"
      by simp
  qed
  then show ?case using add.IH eq by simp
qed

lemma needed_subset:
  assumes "\<And>k. k \<in> S' \<Longrightarrow> \<not> skipped wh pr st c k \<Longrightarrow> k \<in> needed wh pr st d c S"
  shows "needed wh pr st d c S' \<subseteq> needed wh pr st d c S"
proof
  fix x assume "x \<in> needed wh pr st d c S'"
  then show "x \<in> needed wh pr st d c S"
  proof (induction rule: needed.induct)
    case (root k) then show ?case by (rule assms)
  next
    case (dep k x) then show ?case by (blast intro: needed.dep)
  qed
qed

text \<open>Whatever the loop adds is reached from the stack without passing a skipped key.\<close>

lemma loop_sound:
  "fset (dependent_keys_loop wh pr st d c stack out)
     \<subseteq> fset out \<union> needed wh pr st d c (fset out \<union> set stack)"
proof (induction stack out rule: loop_induct[where wh=wh and pr=pr and st=st and c=c and d=d])
  case (Nil out) then show ?case by simp
next
  case (seen stack out)
  note eq = loop_seen[OF seen.hyps, of wh pr st d c]
  have "needed wh pr st d c (fset out \<union> set (butlast stack))
          \<subseteq> needed wh pr st d c (fset out \<union> set stack)"
  proof (rule needed_subset)
    fix k assume "k \<in> fset out \<union> set (butlast stack)" "\<not> skipped wh pr st c k"
    then show "k \<in> needed wh pr st d c (fset out \<union> set stack)"
      by (auto intro: needed.root dest: in_set_butlastD)
  qed
  then show ?case using seen.IH eq by auto
next
  case (skip stack out)
  note eq = loop_skip[OF skip.hyps, of d]
  have "needed wh pr st d c (fset out \<union> set (butlast stack))
          \<subseteq> needed wh pr st d c (fset out \<union> set stack)"
  proof (rule needed_subset)
    fix k assume "k \<in> fset out \<union> set (butlast stack)" "\<not> skipped wh pr st c k"
    then show "k \<in> needed wh pr st d c (fset out \<union> set stack)"
      by (auto intro: needed.root dest: in_set_butlastD)
  qed
  then show ?case using skip.IH eq by auto
next
  case (add stack out)
  note eq = loop_add[OF add.hyps, of d]
  let ?N = "needed wh pr st d c (fset out \<union> set stack)"
  have last: "last stack \<in> ?N"
    using add.hyps by (auto intro!: needed.root)
  have sub: "needed wh pr st d c
          (fset (finsert (last stack) out) \<union> set (butlast stack @ get_or_empty d (last stack)))
          \<subseteq> ?N"
  proof (rule needed_subset)
    fix k assume k: "k \<in> fset (finsert (last stack) out) \<union>
                        set (butlast stack @ get_or_empty d (last stack))"
      and ns: "\<not> skipped wh pr st c k"
    from k consider "k = last stack" | "k |\<in>| out" | "k \<in> set (butlast stack)"
      | "k \<in> set (get_or_empty d (last stack))" by auto
    then show "k \<in> ?N"
    proof cases
      case 1 then show ?thesis using last by simp
    next
      case 2 then show ?thesis using ns by (auto intro: needed.root)
    next
      case 3 then show ?thesis using ns by (auto intro: needed.root dest: in_set_butlastD)
    next
      case 4 then show ?thesis using ns last by (auto intro: needed.dep)
    qed
  qed
  show ?case
  proof
    fix x assume "x \<in> fset (dependent_keys_loop wh pr st d c stack out)"
    then have "x \<in> fset (finsert (last stack) out) \<union> needed wh pr st d c
          (fset (finsert (last stack) out) \<union> set (butlast stack @ get_or_empty d (last stack)))"
      using add.IH eq by auto
    then show "x \<in> fset out \<union> ?N" using sub last by auto
  qed
qed

text \<open>What \<^verbatim>\<open>dependent_keys\<close> returns, as a set: the ks reached from the given ks
  along paths without a skipped key.\<close>

lemma dependent_keys_needed:
  "fset (dependent_keys ks wh pr st d c) = needed wh pr st d c (set ks)"
proof
  show "fset (dependent_keys ks wh pr st d c) \<subseteq> needed wh pr st d c (set ks)"
    using loop_sound[of wh pr st d c ks "{||}"] by (simp add: dependent_keys_def)
next
  have cl: "closed_but wh pr st d c {} (dependent_keys ks wh pr st d c)"
    unfolding dependent_keys_def by (rule loop_closed) (simp add: closed_but_def)
  show "needed wh pr st d c (set ks) \<subseteq> fset (dependent_keys ks wh pr st d c)"
  proof
    fix x assume "x \<in> needed wh pr st d c (set ks)"
    then show "x \<in> fset (dependent_keys ks wh pr st d c)"
    proof (induction rule: needed.induct)
      case (root k)
      then show ?case unfolding dependent_keys_def by (simp add: loop_stack)
    next
      case (dep k x)
      then show ?case using cl unfolding closed_but_def by auto
    qed
  qed
qed

lemma needed_not_skipped: "k \<in> needed wh pr st d c T \<Longrightarrow> \<not> skipped wh pr st c k"
  by (induction rule: needed.induct) auto

lemma needed_complete: "needed wh pr st d True T = reachable d T"
proof (intro set_eqI iffI)
  fix x assume "x \<in> needed wh pr st d True T"
  then show "x \<in> reachable d T"
    by (induction rule: needed.induct) (auto intro: reachable.intros)
next
  fix x assume "x \<in> reachable d T"
  then show "x \<in> needed wh pr st d True T"
    by (induction rule: reachable.induct) (auto intro: needed.intros simp: skipped_def)
qed

lemma needed_reachable: "needed wh pr st d c T \<subseteq> reachable d T"
proof
  fix x assume "x \<in> needed wh pr st d c T"
  then show "x \<in> reachable d T"
    by (induction rule: needed.induct) (auto intro: reachable.intros)
qed

lemma needed_all_unsatisfied:
  assumes "\<And>k. k \<in> reachable d T \<Longrightarrow> \<not> satisfied wh pr st k"
  shows "needed wh pr st d c T = reachable d T"
proof (intro set_eqI iffI)
  fix x assume "x \<in> needed wh pr st d c T"
  then show "x \<in> reachable d T" by (rule subsetD[OF needed_reachable])
next
  fix x assume "x \<in> reachable d T"
  then show "x \<in> needed wh pr st d c T"
  proof (induction rule: reachable.induct)
    case (target k)
    then show ?case using assms[OF reachable.target[OF target]]
      by (auto intro: needed.root simp: skipped_def)
  next
    case (via k x)
    then show ?case using assms[OF reachable.via[OF via(1,2)]]
      by (auto intro: needed.dep simp: skipped_def)
  qed
qed

text \<open>The result depends on the ks given only as a set: the order in which
  \<^verbatim>\<open>list(keys)\<close> enumerates a Python set does not matter.\<close>

lemma dependent_keys_order:
  "set ks = set keys' \<Longrightarrow>
   dependent_keys ks wh pr st d c = dependent_keys keys' wh pr st d c"
  by (simp add: fset_inject[symmetric] dependent_keys_needed)

lemmas closure_eval =
  dependent_keys_def dependent_keys_loop.simps truthy_workers_def get_or_empty_def
  chain_dependencies_def nobody_def a_in_memory_def no_stacks_def

subsection \<open>Claims about the closure\<close>

text \<open>
  C2. With \<^verbatim>\<open>complete=False\<close> the result of \<^verbatim>\<open>dependent_keys\<close> holds no satisfied key (one
  with a non-empty \<^verbatim>\<open>who_has\<close> entry, or in \<^verbatim>\<open>processing\<close>, or in \<^verbatim>\<open>stacks\<close>); and an
  iteration that pops a satisfied key only pops it: the key is not added to \<open>out\<close> and its
  deps are not pushed.
\<close>

theorem dependent_keys_excludes_satisfied:
  "(k |\<in>| dependent_keys ks wh pr st deps False
      \<longrightarrow> \<not> satisfied wh pr st k) \<and>
   (stack \<noteq> [] \<and> satisfied wh pr st (last stack) \<longrightarrow>
      dependent_keys_loop wh pr st deps False stack out =
      dependent_keys_loop wh pr st deps False (butlast stack) out)"
proof (intro conjI impI)
  assume "k |\<in>| dependent_keys ks wh pr st deps False"
  then have "k \<in> needed wh pr st deps False (set ks)"
    by (simp add: dependent_keys_needed[symmetric])
  then show "\<not> satisfied wh pr st k"
    using needed_not_skipped[of k wh pr st deps False "set ks"]
    by (simp add: skipped_def)
next
  assume a: "stack \<noteq> [] \<and> satisfied wh pr st (last stack)"
  show "dependent_keys_loop wh pr st deps False stack out =
        dependent_keys_loop wh pr st deps False (butlast stack) out"
  proof (cases "last stack |\<in>| out")
    case True
    then show ?thesis using a by (simp add: loop_seen)
  next
    case False
    then show ?thesis using a by (simp add: loop_skip skipped_def)
  qed
qed

theorem dependent_keys_excludes_satisfied_witness:
  "''b'' |\<in>| dependent_keys [''c''] a_in_memory {||} no_stacks chain_dependencies False \<and>
   \<not> satisfied a_in_memory {||} no_stacks ''b'' \<and>
   [''b'', ''a''] \<noteq> [] \<and> satisfied a_in_memory {||} no_stacks (last [''b'', ''a'']) \<and>
   dependent_keys_loop a_in_memory {||} no_stacks chain_dependencies False [''b'', ''a''] {||} =
   dependent_keys_loop a_in_memory {||} no_stacks chain_dependencies False (butlast [''b'', ''a'']) {||}"
  using dependent_keys_excludes_satisfied
    [of "''b''" "[''c'']" a_in_memory "{||}" no_stacks chain_dependencies "[''b'', ''a'']" "{||}"]
  by (simp add: closure_eval satisfied_def)

text \<open>
  C3, as stated: \<open>closure(T, false) \<union> T = closure(T, true) \<inter> reachable(T)\<close> for every
  graph and target set. It fails on the chain with \<^verbatim>\<open>a\<close> in memory and target \<^verbatim>\<open>c\<close>: the left
  side is \<open>{b, c}\<close>, the right side has \<^verbatim>\<open>a\<close> as well.
\<close>

theorem closure_equation_counterexample:
  "fset (dependent_keys [''c''] a_in_memory {||} no_stacks chain_dependencies False) \<union> set [''c'']
     \<noteq> fset (dependent_keys [''c''] a_in_memory {||} no_stacks chain_dependencies True)
          \<inter> reachable chain_dependencies (set [''c''])"
proof -
  have c: "''c'' \<in> reachable chain_dependencies (set [''c''])"
    by (rule reachable.target) simp
  have b: "''b'' \<in> reachable chain_dependencies (set [''c''])"
    by (rule reachable.via[OF c]) (simp add: closure_eval)
  have a: "''a'' \<in> reachable chain_dependencies (set [''c''])"
    by (rule reachable.via[OF b]) (simp add: closure_eval)
  have r: "''a'' \<in> fset (dependent_keys [''c''] a_in_memory {||} no_stacks chain_dependencies True)"
    by (simp add: closure_eval)
  have l: "''a'' \<notin> fset (dependent_keys [''c''] a_in_memory {||} no_stacks chain_dependencies False)
                    \<union> set [''c'']"
    by (simp add: closure_eval)
  from a r l show ?thesis by blast
qed

text \<open>
  C3, amended: the left side is always included in the right side, the result for
  \<^verbatim>\<open>complete=True\<close> is exactly the set of ks reachable from \<open>T\<close>, and the two sides are
  equal when no key reachable from \<open>T\<close> is satisfied in the snapshot.
\<close>

theorem closure_equation_amended:
  "fset (dependent_keys ks wh pr st deps False) \<union> set ks
     \<subseteq> fset (dependent_keys ks wh pr st deps True)
          \<inter> reachable deps (set ks) \<and>
   fset (dependent_keys ks wh pr st deps True)
     = reachable deps (set ks) \<and>
   ((\<forall>k \<in> reachable deps (set ks). \<not> satisfied wh pr st k) \<longrightarrow>
    fset (dependent_keys ks wh pr st deps False) \<union> set ks
     = fset (dependent_keys ks wh pr st deps True)
          \<inter> reachable deps (set ks))"
proof (intro conjI impI)
  have T: "set ks \<subseteq> reachable deps (set ks)"
    by (auto intro: reachable.target)
  show full: "fset (dependent_keys ks wh pr st deps True)
          = reachable deps (set ks)"
    by (simp add: dependent_keys_needed needed_complete)
  show "fset (dependent_keys ks wh pr st deps False) \<union> set ks
     \<subseteq> fset (dependent_keys ks wh pr st deps True)
          \<inter> reachable deps (set ks)"
    using T needed_reachable[of wh pr st deps False "set ks"]
    by (simp add: dependent_keys_needed needed_complete)
  assume "\<forall>k \<in> reachable deps (set ks). \<not> satisfied wh pr st k"
  then have "needed wh pr st deps False (set ks)
               = reachable deps (set ks)"
    by (intro needed_all_unsatisfied) simp
  then show "fset (dependent_keys ks wh pr st deps False) \<union> set ks
     = fset (dependent_keys ks wh pr st deps True)
          \<inter> reachable deps (set ks)"
    using T by (auto simp: dependent_keys_needed needed_complete)
qed

theorem closure_equation_amended_witness:
  "fset (dependent_keys [''c''] nobody {||} no_stacks chain_dependencies False) \<union> set [''c'']
     = {''a'', ''b'', ''c''} \<and>
   fset (dependent_keys [''c''] nobody {||} no_stacks chain_dependencies True)
          \<inter> reachable chain_dependencies (set [''c'']) = {''a'', ''b'', ''c''}"
proof -
  have unsat: "\<forall>k \<in> reachable chain_dependencies (set [''c'']). \<not> satisfied nobody {||} no_stacks k"
    by (simp add: satisfied_def nobody_def no_stacks_def)
  have l: "fset (dependent_keys [''c''] nobody {||} no_stacks chain_dependencies False)
             \<union> set [''c''] = {''a'', ''b'', ''c''}"
    by (auto simp: closure_eval)
  show ?thesis
    using closure_equation_amended[of "[''c'']" nobody "{||}" no_stacks chain_dependencies] unsat l
    by simp
qed

text \<open>
  C10. With \<^verbatim>\<open>complete=True\<close> the result of \<^verbatim>\<open>dependent_keys\<close> is the same for any two
  snapshots with the same deps, whatever their \<^verbatim>\<open>who_has\<close>, \<^verbatim>\<open>processing\<close> and
  \<^verbatim>\<open>stacks\<close>.
\<close>

theorem dependent_keys_complete_noninterference:
  "dependent_keys ks wh pr st deps True =
   dependent_keys ks wh' pr' st' deps True"
  by (simp add: fset_inject[symmetric] dependent_keys_needed needed_complete)

theorem dependent_keys_complete_noninterference_witness:
  "dependent_keys [''c''] a_in_memory {|''b''|} no_stacks chain_dependencies True =
   dependent_keys [''c''] nobody {||} no_stacks chain_dependencies True \<and>
   dependent_keys [''c''] nobody {||} no_stacks chain_dependencies True = {|''a'', ''b'', ''c''|}"
  using dependent_keys_complete_noninterference
    [of "[''c'']" a_in_memory "{|''b''|}" no_stacks chain_dependencies nobody "{||}" no_stacks]
  by (simp add: closure_eval)

section \<open>Properties of the tracker\<close>

lemma chain_tracker_eq:
  "chain_tracker =
     (\<lparr>ident = 1, keys = {|''a'', ''b'', ''c''|}, all_keys = {|''a'', ''b'', ''c''|}, status = None\<rparr>,
      chain_scheduler\<lparr>diagnostics := [1]\<rparr>)"
  by (auto simp: chain_tracker_def Progress_f_def add_diagnostic_def chain_scheduler_def
      closure_eval Let_def)



lemma Progress_stop_fields [simp]:
  "ident (fst (Progress_stop p s e k)) = ident p"
  "keys (fst (Progress_stop p s e k)) = keys p"
  "all_keys (fst (Progress_stop p s e k)) = all_keys p"
  "status (fst (Progress_stop p s e k)) = (if truthy e then Some Error else Some Finished)"
  by (simp_all add: Progress_stop_def Let_def)

lemma task_finished_fields:
  "ident (fst (Progress_task_finished p s k w n)) = ident p"
  "all_keys (fst (Progress_task_finished p s k w n)) = all_keys p"
  "keys (fst (Progress_task_finished p s k w n)) = keys p |-| {|k|}"
  by (auto simp: Progress_task_finished_def Let_def)

lemma task_erred_fields:
  "ident (fst (Progress_task_erred p s k w e)) = ident p"
  "all_keys (fst (Progress_task_erred p s k w e)) = all_keys p"
  "keys (fst (Progress_task_erred p s k w e)) = keys p"
  by (simp_all add: Progress_task_erred_def)

lemma deliver_fields:
  "all_keys (fst (deliver st cb)) = all_keys (fst st)"
  "keys (fst (deliver st cb)) |\<subseteq>| keys (fst st)"
  by (cases st; cases cb; auto simp: task_finished_fields task_erred_fields)+

lemma foldl_deliver_fields:
  "all_keys (fst (foldl deliver st cbs)) = all_keys (fst st) \<and>
   keys (fst (foldl deliver st cbs)) |\<subseteq>| keys (fst st)"
proof (induction cbs arbitrary: st)
  case Nil show ?case by simp
next
  case (Cons cb cbs)
  show ?case using Cons[of "deliver st cb"] deliver_fields[of st cb] by auto
qed

lemma wait_for_keys_Inr:
  "wait_for_keys ks start s0 sleeps = Some (Inr s) \<Longrightarrow> ks |\<subseteq>| dask s \<and> s \<in> insert s0 (snd ` set sleeps)"
proof (induction sleeps arbitrary: s0)
  case Nil
  then show ?case by (simp add: wait_for_keys.simps split: if_splits)
next
  case (Cons x sleeps)
  obtain now s1 where x: "x = (now, s1)" by (cases x)
  show ?case
  proof (cases "ks |\<subseteq>| dask s0")
    case True
    then show ?thesis using Cons.prems by (simp add: wait_for_keys.simps)
  next
    case False
    then have "wait_for_keys ks start s1 sleeps = Some (Inr s)"
      using Cons.prems x by (simp add: wait_for_keys.simps split: if_splits)
    from Cons.IH[OF this] show ?thesis using x by auto
  qed
qed

lemma wait_for_keys_Inl:
  "wait_for_keys ks start s0 sleeps = Some (Inl (e, s)) \<Longrightarrow>
   \<not> ks |\<subseteq>| dask s0 \<and> e = Keys_not_found (ks |-| in_play s) \<and>
   (\<exists>now. (now, s) \<in> set sleeps \<and> now > start + 1)"
proof (induction sleeps arbitrary: s0)
  case Nil
  then show ?case by (simp add: wait_for_keys.simps split: if_splits)
next
  case (Cons x sleeps)
  obtain now s1 where x: "x = (now, s1)" by (cases x)
  have nsub: "\<not> ks |\<subseteq>| dask s0"
    using Cons.prems by (auto simp: wait_for_keys.simps)
  show ?case
  proof (cases "now > start + 1")
    case True
    then show ?thesis using Cons.prems x nsub by (auto simp: wait_for_keys.simps)
  next
    case False
    then have "wait_for_keys ks start s1 sleeps = Some (Inl (e, s))"
      using Cons.prems x nsub by (simp add: wait_for_keys.simps)
    from Cons.IH[OF this] show ?thesis using x nsub by auto
  qed
qed

lemma wait_for_keys_never_present:
  assumes "\<not> ks |\<subseteq>| dask s0"
    and "\<And>now s. (now, s) \<in> set sleeps \<Longrightarrow> \<not> ks |\<subseteq>| dask s"
    and "(late, s1) \<in> set sleeps" and "late > start + 1"
  shows "\<exists>s. wait_for_keys ks start s0 sleeps = Some (Inl (Keys_not_found (ks |-| in_play s), s))"
  using assms
proof (induction sleeps arbitrary: s0)
  case Nil
  then show ?case by simp
next
  case (Cons x sleeps)
  obtain now s' where x: "x = (now, s')" by (cases x)
  show ?case
  proof (cases "now > start + 1")
    case True
    then show ?thesis using Cons.prems(1) x by (simp add: wait_for_keys.simps)
  next
    case False
    then have in_rest: "(late, s1) \<in> set sleeps" using Cons.prems(3,4) x by auto
    have "\<not> ks |\<subseteq>| dask s'" using Cons.prems(2)[of now s'] x by simp
    from Cons.IH[OF this _ in_rest Cons.prems(4)] Cons.prems(2)
    obtain s where "wait_for_keys ks start s' sleeps
                      = Some (Inl (Keys_not_found (ks |-| in_play s), s))"
      by auto
    then show ?thesis using False Cons.prems(1) x by (simp add: wait_for_keys.simps)
  qed
qed

lemma fset_of_list_remdups [simp]: "fset_of_list (remdups xs) = fset_of_list xs"
  by (rule fset_eqI) (simp add: fset_of_list_elem)

lemma Progress_init_Inr:
  assumes "Progress_init args scheduler default_executor self start sleeps = Some (Inr (p, s))"
  shows "\<exists>s'. Progress_f self (remdups (map arg_key args)) s' = (p, s)"
  using assms
  by (auto simp: Progress_init_def Let_def split: option.splits sum.splits prod.splits)

lemma Progress_init_Inl:
  assumes "Progress_init args scheduler default_executor self start sleeps = Some (Inl (e, Some s))"
  shows "s \<in> snd ` set sleeps \<and> e = Keys_not_found (fset_of_list (map arg_key args) |-| in_play s)"
proof -
  from assms obtain s0 where
    "wait_for_keys (fset_of_list (remdups (map arg_key args))) start s0 sleeps = Some (Inl (e, s))"
    by (auto simp: Progress_init_def Let_def split: option.splits sum.splits prod.splits)
  from wait_for_keys_Inl[OF this] show ?thesis by force
qed

text \<open>
  When some target is in the graph at no observation and the clock passes \<open>start + 1\<close>,
  the constructor raises, and the scheduler is one of those observed: the constructor has
  not touched it, so no tracker is registered.
\<close>

lemma Progress_init_times_out:
  assumes "\<not> fset_of_list (map arg_key args) |\<subseteq>| dask s0"
    and "\<And>now s. (now, s) \<in> set sleeps \<Longrightarrow> \<not> fset_of_list (map arg_key args) |\<subseteq>| dask s"
    and "(late, s1) \<in> set sleeps" and "late > start + 1"
  shows "\<exists>s. s \<in> snd ` set sleeps \<and>
             Progress_init args (Some s0) default_executor self start sleeps
               = Some (Inl (Keys_not_found (fset_of_list (map arg_key args) |-| in_play s), Some s))"
proof -
  from wait_for_keys_never_present[of "fset_of_list (map arg_key args)" s0 sleeps late s1 start]
    assms
  obtain s where w: "wait_for_keys (fset_of_list (map arg_key args)) start s0 sleeps
                 = Some (Inl (Keys_not_found (fset_of_list (map arg_key args) |-| in_play s), s))"
    by blast
  then have i: "Progress_init args (Some s0) default_executor self start sleeps
               = Some (Inl (Keys_not_found (fset_of_list (map arg_key args) |-| in_play s), Some s))"
    by (simp add: Progress_init_def Let_def)
  from Progress_init_Inl[OF i] have "s \<in> snd ` set sleeps" by simp
  with i show ?thesis by blast
qed

subsection \<open>Claims about construction\<close>

text \<open>
  C5. When \<^verbatim>\<open>Progress.__init__\<close> succeeds, \<^verbatim>\<open>keys\<close> (the pending keys) is the closure of
  the targets with \<^verbatim>\<open>complete=False\<close> on the scheduler's \<^verbatim>\<open>who_has\<close>, \<^verbatim>\<open>processing\<close>,
  \<^verbatim>\<open>stacks\<close> and, as the dependencies, \<^verbatim>\<open>waiting\<close>; \<^verbatim>\<open>all_keys\<close> is that closure united with
  the targets; and after any sequence of \<^verbatim>\<open>task_finished\<close> and \<^verbatim>\<open>task_erred\<close> callbacks
  (the empty one included) \<^verbatim>\<open>keys\<close> is a subset of \<^verbatim>\<open>all_keys\<close> and the targets are in
  \<^verbatim>\<open>all_keys\<close>.
\<close>

theorem Progress_init_sets_and_invariants:
  assumes "Progress_init args scheduler default_executor self start sleeps = Some (Inr (p, s))"
  shows "keys p = dependent_keys (remdups (map arg_key args))
                    (who_has s) (processing s) (stacks s) (waiting s) False \<and>
         all_keys p = dependent_keys (remdups (map arg_key args))
                        (who_has s) (processing s) (stacks s) (waiting s) False
                      |\<union>| fset_of_list (map arg_key args) \<and>
         keys (fst (foldl deliver (p, s) callbacks))
           |\<subseteq>| all_keys (fst (foldl deliver (p, s) callbacks)) \<and>
         fset_of_list (map arg_key args) |\<subseteq>| all_keys (fst (foldl deliver (p, s) callbacks))"
proof -
  from Progress_init_Inr[OF assms] obtain s' where
    ps: "Progress_f self (remdups (map arg_key args)) s' = (p, s)" by blast
  have k: "keys p = dependent_keys (remdups (map arg_key args))
                    (who_has s) (processing s) (stacks s) (waiting s) False"
    and a: "all_keys p = keys p |\<union>| fset_of_list (map arg_key args)"
    using ps by (auto simp: Progress_f_def Let_def add_diagnostic_def)
  have f: "all_keys (fst (foldl deliver (p, s) callbacks)) = all_keys p"
    "keys (fst (foldl deliver (p, s) callbacks)) |\<subseteq>| keys p"
    using foldl_deliver_fields[of "(p, s)" callbacks] by simp_all
  show ?thesis using k a f by auto
qed

theorem Progress_init_sets_and_invariants_witness:
  "Progress_init [Future ''c''] (Some chain_scheduler) None 1 0 [] = Some (Inr chain_tracker) \<and>
   keys (fst chain_tracker) = {|''a'', ''b'', ''c''|} \<and>
   all_keys (fst chain_tracker) = {|''a'', ''b'', ''c''|} \<and>
   keys (fst (foldl deliver chain_tracker
                [Task_finished ''a'' ''worker-1'' 8, Task_erred ''b'' ''worker-1'' (Py_object True ''boom'')]))
     |\<subseteq>| all_keys (fst (foldl deliver chain_tracker
                [Task_finished ''a'' ''worker-1'' 8, Task_erred ''b'' ''worker-1'' (Py_object True ''boom'')])) \<and>
   fset_of_list (map arg_key [Future ''c''])
     |\<subseteq>| all_keys (fst (foldl deliver chain_tracker
                [Task_finished ''a'' ''worker-1'' 8, Task_erred ''b'' ''worker-1'' (Py_object True ''boom'')]))"
proof -
  let ?cbs = "[Task_finished ''a'' ''worker-1'' 8, Task_erred ''b'' ''worker-1'' (Py_object True ''boom'')]"
  have i: "Progress_init [Future ''c''] (Some chain_scheduler) None 1 0 [] = Some (Inr chain_tracker)"
    by (simp add: Progress_init_def Let_def wait_for_keys.simps chain_tracker_def
        chain_scheduler_def)
  then have i': "Progress_init [Future ''c''] (Some chain_scheduler) None 1 0 []
                   = Some (Inr (fst chain_tracker, snd chain_tracker))"
    by simp
  have "(fst chain_tracker, snd chain_tracker) = chain_tracker" by simp
  with Progress_init_sets_and_invariants[OF i', of ?cbs]
  have inv: "keys (fst (foldl deliver chain_tracker ?cbs))
               |\<subseteq>| all_keys (fst (foldl deliver chain_tracker ?cbs))"
    "fset_of_list (map arg_key [Future ''c''])
               |\<subseteq>| all_keys (fst (foldl deliver chain_tracker ?cbs))"
    by (simp_all only:)
  have vals: "keys (fst chain_tracker) = {|''a'', ''b'', ''c''|}"
    "all_keys (fst chain_tracker) = {|''a'', ''b'', ''c''|}"
    by (simp_all add: chain_tracker_eq)
  show ?thesis using i inv vals by blast
qed

text \<open>
  C6. Construction on targets of which one never appears in the scheduler's graph within
  the second of waiting should fail with an error naming exactly the targets absent from
  the graph, and register nothing. The code fails and registers nothing, but the message
  is built from \<^verbatim>\<open>scheduler.in_play\<close>, not from \<^verbatim>\<open>scheduler.dask\<close>, which the loop tests:
  with \<^verbatim>\<open>a\<close> in the graph but not in play and \<^verbatim>\<open>z\<close> not in the graph, the error names
  \<^verbatim>\<open>a\<close> and \<^verbatim>\<open>z\<close>, while only \<^verbatim>\<open>z\<close> is absent from the graph.
\<close>

theorem Progress_init_reports_keys_outside_in_play:
  "Progress_init [Key ''a'', Key ''z''] (Some idle_scheduler) None 1 0
       [(1 / 2, idle_scheduler), (101 / 100, idle_scheduler)]
     = Some (Inl (Keys_not_found {|''a'', ''z''|}, Some idle_scheduler)) \<and>
   fset_of_list (map arg_key [Key ''a'', Key ''z'']) |-| dask idle_scheduler = {|''z''|}"
  by (simp add: Progress_init_def wait_for_keys.simps idle_scheduler_def Let_def)

subsection \<open>Claims about the callbacks\<close>










section \<open>Properties of the grouped tracker\<close>

lemma ffilter_finsert [simp]:
  "ffilter P (finsert x A) = (if P x then finsert x (ffilter P A) else ffilter P A)"
  by (rule fset_eqI) auto

lemma ffilter_fempty [simp]: "ffilter P {||} = {||}"
  by (rule fset_eqI) auto

lemma fmlookup_groupby:
  "fmlookup (valmap_set_groupby g K) l
     = (if l |\<in>| g |`| K then Some (ffilter (\<lambda>k. g k = l) K) else None)"
  by (simp add: valmap_set_groupby.rep_eq)

lemma fmdom_groupby [simp]: "fmdom (valmap_set_groupby g K) = g |`| K"
  by (rule fset_eqI) (simp add: fmlookup_dom_iff fmlookup_groupby)

lemma fBex_fmran:
  "fBex (fmran m) P \<longleftrightarrow> fBex (fmdom m) (\<lambda>l. \<exists>s. fmlookup m l = Some s \<and> P s)"
proof
  assume "fBex (fmran m) P"
  then obtain s where "s |\<in>| fmran m" "P s" by blast
  then obtain l where "fmlookup m l = Some s" by (auto simp: fmlookup_ran_iff)
  then show "fBex (fmdom m) (\<lambda>l. \<exists>s. fmlookup m l = Some s \<and> P s)"
    using \<open>P s\<close> by (intro fBexI[of _ l]) (auto intro: fmdomI)
next
  assume "fBex (fmdom m) (\<lambda>l. \<exists>s. fmlookup m l = Some s \<and> P s)"
  then obtain l s where "fmlookup m l = Some s" "P s" by blast
  then show "fBex (fmran m) P" by (intro fBexI[of _ s]) (auto intro: fmranI)
qed

lemma groupby_member:
  "(\<exists>b. fmlookup (valmap_set_groupby g K) l = Some b \<and> k |\<in>| b) \<longleftrightarrow> k |\<in>| K \<and> g k = l"
  by (auto simp: fmlookup_groupby)

lemma in_ffUnion_iff: "k |\<in>| ffUnion A \<longleftrightarrow> (\<exists>b. b |\<in>| A \<and> k |\<in>| b)"
proof -
  have "fset (ffUnion A) = \<Union> (fset ` fset A)" by (rule ffUnion.rep_eq)
  then show ?thesis by auto
qed

lemma groupby_cover: "ffUnion (fmran (valmap_set_groupby g K)) = K"
proof (rule fset_eqI)
  fix k
  have "k |\<in>| ffUnion (fmran (valmap_set_groupby g K))
          \<longleftrightarrow> (\<exists>b. b |\<in>| fmran (valmap_set_groupby g K) \<and> k |\<in>| b)"
    by (rule in_ffUnion_iff)
  also have "\<dots> \<longleftrightarrow> (\<exists>l b. fmlookup (valmap_set_groupby g K) l = Some b \<and> k |\<in>| b)"
    by (auto simp: fmlookup_ran_iff)
  also have "\<dots> \<longleftrightarrow> k |\<in>| K"
    using groupby_member[of g K _ k] by blast
  finally show "k |\<in>| ffUnion (fmran (valmap_set_groupby g K)) \<longleftrightarrow> k |\<in>| K" .
qed

lemma groupby_counts:
  "(\<Sum>l \<in> fset (fmdom (valmap_set_groupby g K)).
       fcard (the (fmlookup (valmap_set_groupby g K) l))) = fcard K"
proof -
  have "(\<Sum>l \<in> g ` fset K. card {k \<in> fset K. g k = l}) = card (fset K)"
    using sum.group[of "fset K" "g ` fset K" g "\<lambda>_. 1::nat"] by simp
  moreover have "fcard (the (fmlookup (valmap_set_groupby g K) l)) = card {k \<in> fset K. g k = l}"
    if "l \<in> g ` fset K" for l
  proof -
    have "fset (ffilter (\<lambda>k. g k = l) K) = {k \<in> fset K. g k = l}" by auto
    then show ?thesis using that by (auto simp: fmlookup_groupby fcard.rep_eq)
  qed
  ultimately show ?thesis by (simp add: fcard.rep_eq)
qed

lemma group_keys_Inr:
  "group_keys f K = Inr G \<Longrightarrow> G = valmap_set_groupby (projr \<circ> f) K \<and> (\<forall>k. k |\<in>| K \<longrightarrow> \<not> isl (f k))"
  by (auto simp: group_keys_def split: if_splits)

lemma MultiProgress_init_Inr:
  assumes "MultiProgress_init args scheduler f default_executor self start sleeps = Some (Inr (m, s))"
  shows "\<exists>p. Progress_init args scheduler default_executor self start sleeps = Some (Inr (p, s)) \<and>
             keys m = valmap_set_groupby (projr \<circ> f) (keys p) \<and>
             all_keys m = valmap_set_groupby (projr \<circ> f) (all_keys p) \<and>
             ident m = ident p \<and> status m = status p \<and> func m = f \<and>
             (\<forall>k. k |\<in>| all_keys p \<longrightarrow> \<not> isl (f k))"
  using assms
  by (auto simp: MultiProgress_init_def split: option.splits sum.splits prod.splits
      dest!: group_keys_Inr)

lemma grouped_as_cover:
  assumes "grouped_as f m p"
  shows "ffUnion (fmran (keys m)) = keys p"
proof (rule fset_eqI)
  fix k
  have "k |\<in>| ffUnion (fmran (keys m)) \<longleftrightarrow> (\<exists>l b. fmlookup (keys m) l = Some b \<and> k |\<in>| b)"
    by (auto simp: in_ffUnion_iff fmlookup_ran_iff)
  also have "\<dots> \<longleftrightarrow> k |\<in>| keys p"
  proof
    assume "\<exists>l b. fmlookup (keys m) l = Some b \<and> k |\<in>| b"
    then show "k |\<in>| keys p" using assms unfolding grouped_as_def by fastforce
  next
    assume k: "k |\<in>| keys p"
    then have "projr (f k) |\<in>| fmdom (keys m)" using assms unfolding grouped_as_def by blast
    then obtain b where b: "fmlookup (keys m) (projr (f k)) = Some b" by (auto simp: fmlookup_dom_iff)
    then have "b = ffilter (\<lambda>k'. projr (f k') = projr (f k)) (keys p)"
      using assms unfolding grouped_as_def by blast
    then have "k |\<in>| b" using k by simp
    then show "\<exists>l b. fmlookup (keys m) l = Some b \<and> k |\<in>| b" using b by blast
  qed
  finally show "k |\<in>| ffUnion (fmran (keys m)) \<longleftrightarrow> k |\<in>| keys p" .
qed

lemma grouped_as_counts:
  assumes "grouped_as f m p"
  shows "(\<Sum>l \<in> fset (fmdom (keys m)). fcard (the (fmlookup (keys m) l))) = fcard (keys p)"
proof -
  let ?g = "\<lambda>k. projr (f k)"
  have sub: "?g ` fset (keys p) \<subseteq> fset (fmdom (keys m))"
    using assms unfolding grouped_as_def by auto
  have "(\<Sum>l \<in> fset (fmdom (keys m)). card {k \<in> fset (keys p). ?g k = l}) = card (fset (keys p))"
    using sum.group[of "fset (keys p)" "fset (fmdom (keys m))" ?g "\<lambda>_. 1::nat"] sub by simp
  moreover have "fcard (the (fmlookup (keys m) l)) = card {k \<in> fset (keys p). ?g k = l}"
    if "l \<in> fset (fmdom (keys m))" for l
  proof -
    from that obtain b where b: "fmlookup (keys m) l = Some b" by (auto simp: fmlookup_dom_iff)
    then have "b = ffilter (\<lambda>k. ?g k = l) (keys p)"
      using assms unfolding grouped_as_def by blast
    moreover have "fset (ffilter (\<lambda>k. ?g k = l) (keys p)) = {k \<in> fset (keys p). ?g k = l}" by auto
    ultimately show ?thesis using b by (simp add: fcard.rep_eq)
  qed
  ultimately show ?thesis by (simp add: fcard.rep_eq)
qed

lemma grouped_as_stop_condition:
  assumes "grouped_as f m p"
  shows "(keys m = fmempty \<or> \<not> fBex (fmran (keys m)) (\<lambda>s. s \<noteq> {||})) \<longleftrightarrow> keys p = {||}"
proof
  assume "keys p = {||}"
  then have "\<forall>l b. fmlookup (keys m) l = Some b \<longrightarrow> b = {||}"
    using assms unfolding grouped_as_def by fastforce
  then have "\<not> fBex (fmran (keys m)) (\<lambda>s. s \<noteq> {||})"
    by (metis fBexE fmlookup_ran_iff)
  then show "keys m = fmempty \<or> \<not> fBex (fmran (keys m)) (\<lambda>s. s \<noteq> {||})" by simp
next
  assume c: "keys m = fmempty \<or> \<not> fBex (fmran (keys m)) (\<lambda>s. s \<noteq> {||})"
  have "ffUnion (fmran (keys m)) = {||}"
  proof (rule fset_eqI)
    fix k
    show "k |\<in>| ffUnion (fmran (keys m)) \<longleftrightarrow> k |\<in>| {||}"
      using c by (auto simp: in_ffUnion_iff)
  qed
  then show "keys p = {||}" using grouped_as_cover[OF assms] by simp
qed


lemma grouped_as_stop:
  assumes "grouped_as f m p"
  shows "grouped_as f (fst (Progress_stop m s e k)) (fst (Progress_stop p s e k)) \<and>
         snd (Progress_stop m s e k) = snd (Progress_stop p s e k)"
  using assms by (simp add: Progress_stop_def Let_def grouped_as_def)

lemma grouped_as_tail:
  assumes "grouped_as f m p"
    and "rm = (if keys m = fmempty \<or> \<not> fBex (fmran (keys m)) (\<lambda>s. s \<noteq> {||})
               then Progress_stop m s (Py_None :: unit payload) None else (m, s))"
    and "rp = (if keys p = {||} then Progress_stop p s (Py_None :: unit payload) None else (p, s))"
  shows "grouped_as f (fst rm) (fst rp) \<and> snd rm = snd rp"
proof (cases "keys p = {||}")
  case True
  then have c: "keys m = fmempty \<or> \<not> fBex (fmran (keys m)) (\<lambda>s. s \<noteq> {||})"
    using grouped_as_stop_condition[OF assms(1)] by blast
  show ?thesis unfolding assms(2,3) if_P[OF c] if_P[OF True]
    by (rule grouped_as_stop[OF assms(1)])
next
  case False
  then have c: "\<not> (keys m = fmempty \<or> \<not> fBex (fmran (keys m)) (\<lambda>s. s \<noteq> {||}))"
    using grouped_as_stop_condition[OF assms(1)] by blast
  show ?thesis unfolding assms(2,3) if_not_P[OF c] if_not_P[OF False]
    using assms(1) by (simp only: fst_conv snd_conv simp_thms)
qed

lemma grouped_as_bucket:
  assumes "grouped_as f m p" and "f key = Inr l" and "fmlookup (keys m) l = Some b"
  shows "key |\<in>| b \<longleftrightarrow> key |\<in>| keys p"
proof -
  have "b = ffilter (\<lambda>k. projr (f k) = l) (keys p)"
    using assms(1,3) unfolding grouped_as_def by blast
  then show ?thesis using assms(2) by simp
qed

lemma grouped_as_no_bucket:
  assumes "grouped_as f m p" and "f key = Inr l" and "fmlookup (keys m) l = None"
  shows "key |\<notin>| keys p"
proof
  assume "key |\<in>| keys p"
  then have "projr (f key) |\<in>| fmdom (keys m)"
    using assms(1) unfolding grouped_as_def by blast
  then show False using assms(2,3) by (simp add: fmlookup_dom_iff)
qed

lemma grouped_as_remove:
  assumes "grouped_as f m p" and "f key = Inr l" and "fmlookup (keys m) l = Some b"
  shows "grouped_as f (m\<lparr>keys := fmupd l (b |-| {|key|}) (keys m)\<rparr>)
           (p\<lparr>keys := keys p |-| {|key|}\<rparr>)"
proof -
  let ?g = "\<lambda>k. projr (f k)"
  have b: "b = ffilter (\<lambda>k. ?g k = l) (keys p)"
    using assms(1,3) unfolding grouped_as_def by blast
  have buckets: "b' = ffilter (\<lambda>k. ?g k = l') (keys p |-| {|key|})"
    if "fmlookup (fmupd l (b |-| {|key|}) (keys m)) l' = Some b'" for l' b'
  proof (cases "l' = l")
    case True
    then have "b' = b |-| {|key|}" using that by simp
    then show ?thesis using b True by auto
  next
    case False
    then have "fmlookup (keys m) l' = Some b'" using that by simp
    then have "b' = ffilter (\<lambda>k. ?g k = l') (keys p)"
      using assms(1) unfolding grouped_as_def by blast
    then show ?thesis using False assms(2) by auto
  qed
  have dom: "?g k |\<in>| fmdom (fmupd l (b |-| {|key|}) (keys m))" if "k |\<in>| keys p |-| {|key|}" for k
    using that assms(1) unfolding grouped_as_def by auto
  show ?thesis
    unfolding grouped_as_def
    using assms(1) buckets dom unfolding grouped_as_def by auto
qed

lemma task_finished_simulation:
  assumes "grouped_as f m p"
    and "MultiProgress_task_finished m s key w n = Inr (m', s')"
  shows "grouped_as f m' (fst (Progress_task_finished p s key w n)) \<and>
         s' = snd (Progress_task_finished p s key w n)"
proof -
  have fm: "func m = f" using assms(1) by (simp add: grouped_as_def)
  from assms(2) obtain l where l: "f key = Inr l"
    by (cases "f key") (simp_all add: MultiProgress_task_finished_def fm)
  show ?thesis
  proof (cases "fmlookup (keys m) l")
    case None
    have nk: "key |\<notin>| keys p" by (rule grouped_as_no_bucket[OF assms(1) l None])
    have rm: "(m', s') = (if keys m = fmempty \<or> \<not> fBex (fmran (keys m)) (\<lambda>s. s \<noteq> {||})
                 then Progress_stop m s (Py_None :: unit payload) None else (m, s))"
      using assms(2) None by (simp add: MultiProgress_task_finished_def fm l Let_def)
    have rp: "Progress_task_finished p s key w n
           = (if keys p = {||} then Progress_stop p s (Py_None :: unit payload) None else (p, s))"
      using nk by (simp add: Progress_task_finished_def Let_def)
    from grouped_as_tail[OF assms(1) rm rp] show ?thesis
      by (simp only: fst_conv snd_conv)
  next
    case (Some b)
    have mem: "key |\<in>| b \<longleftrightarrow> key |\<in>| keys p" by (rule grouped_as_bucket[OF assms(1) l Some])
    show ?thesis
    proof (cases "key |\<in>| b")
      case True
      let ?m = "m\<lparr>keys := fmupd l (b |-| {|key|}) (keys m)\<rparr>"
      let ?p = "p\<lparr>keys := keys p |-| {|key|}\<rparr>"
      have rel: "grouped_as f ?m ?p" by (rule grouped_as_remove[OF assms(1) l Some])
      have ne: "b \<noteq> {||}" using True by auto
      have rm: "(m', s') = (if keys ?m = fmempty \<or> \<not> fBex (fmran (keys ?m)) (\<lambda>s. s \<noteq> {||})
                 then Progress_stop ?m s (Py_None :: unit payload) None else (?m, s))"
        using assms(2) Some True ne by (simp add: MultiProgress_task_finished_def fm l Let_def)
      have rp: "Progress_task_finished p s key w n
           = (if keys ?p = {||} then Progress_stop ?p s (Py_None :: unit payload) None else (?p, s))"
        using True mem by (simp add: Progress_task_finished_def Let_def)
      from grouped_as_tail[OF rel rm rp] show ?thesis
        by (simp only: fst_conv snd_conv)
    next
      case False
      have rm: "(m', s') = (if keys m = fmempty \<or> \<not> fBex (fmran (keys m)) (\<lambda>s. s \<noteq> {||})
                 then Progress_stop m s (Py_None :: unit payload) None else (m, s))"
        using assms(2) Some False by (simp add: MultiProgress_task_finished_def fm l Let_def)
      have rp: "Progress_task_finished p s key w n
           = (if keys p = {||} then Progress_stop p s (Py_None :: unit payload) None else (p, s))"
        using False mem by (simp add: Progress_task_finished_def Let_def)
      from grouped_as_tail[OF assms(1) rm rp] show ?thesis
        by (simp only: fst_conv snd_conv)
    qed
  qed
qed

lemma task_erred_simulation:
  assumes "grouped_as f m p"
    and "MultiProgress_task_erred m s key w e = Inr (m', s')"
  shows "grouped_as f m' (fst (Progress_task_erred p s key w e)) \<and>
         s' = snd (Progress_task_erred p s key w e)"
proof -
  have fm: "func m = f" using assms(1) by (simp add: grouped_as_def)
  have am: "all_keys m = valmap_set_groupby (projr \<circ> f) (all_keys p)"
    using assms(1) by (simp add: grouped_as_def)
  from assms(2) obtain l where l: "f key = Inr l"
    by (cases "f key") (simp_all add: MultiProgress_task_erred_def fm)
  have mem: "(\<exists>b. fmlookup (all_keys m) l = Some b \<and> key |\<in>| b) \<longleftrightarrow> key |\<in>| all_keys p"
    unfolding am groupby_member using l by simp
  show ?thesis
  proof (cases "key |\<in>| all_keys p")
    case True
    then obtain b where "fmlookup (all_keys m) l = Some b" "key |\<in>| b" using mem by blast
    then have rm: "Progress_stop m s e (Some key) = (m', s')"
      using assms(2) by (simp add: MultiProgress_task_erred_def fm l)
    have rp: "Progress_task_erred p s key w e = Progress_stop p s e (Some key)"
      using True by (simp add: Progress_task_erred_def)
    from grouped_as_stop[OF assms(1), of s e "Some key"] show ?thesis
      unfolding rp rm by (simp only: fst_conv snd_conv)
  next
    case False
    then have "(m', s') = (m, s)"
      using assms(2) mem
      by (auto simp: MultiProgress_task_erred_def fm l split: option.splits if_splits)
    moreover have "Progress_task_erred p s key w e = (p, s)"
      using False by (simp add: Progress_task_erred_def)
    ultimately show ?thesis using assms(1) by simp
  qed
qed

lemma deliver_simulation:
  assumes "grouped_as f (fst ms) (fst ps)" and "snd ms = snd ps"
    and "deliver_multi_all ms callbacks = Inr ms'"
  shows "grouped_as f (fst ms') (fst (foldl deliver ps callbacks)) \<and>
         snd ms' = snd (foldl deliver ps callbacks)"
  using assms
proof (induction callbacks arbitrary: ms ps)
  case Nil
  then show ?case by simp
next
  case (Cons cb cbs)
  obtain m s where ms: "ms = (m, s)" by (cases ms)
  obtain p where ps: "ps = (p, s)" using Cons.prems(2) ms by (cases ps) simp
  from Cons.prems(3) obtain ms1 where
    one: "deliver_multi ms cb = Inr ms1" and rest: "deliver_multi_all ms1 cbs = Inr ms'"
    by (auto split: sum.splits)
  have "grouped_as f (fst ms1) (fst (deliver ps cb)) \<and> snd ms1 = snd (deliver ps cb)"
  proof (cases cb)
    case (Task_finished key w n)
    then show ?thesis
      using task_finished_simulation[of f m p s key w n "fst ms1" "snd ms1"] one Cons.prems(1) ms ps
      by simp
  next
    case (Task_erred key w e)
    then show ?thesis
      using task_erred_simulation[of f m p s key w e "fst ms1" "snd ms1"] one Cons.prems(1) ms ps
      by simp
  qed
  then show ?case using Cons.IH[of ms1 "deliver ps cb", OF _ _ rest] by simp
qed

lemma Progress_init_keys_subset:
  assumes "Progress_init args scheduler default_executor self start sleeps = Some (Inr (p, s))"
  shows "keys p |\<subseteq>| all_keys p"
  using Progress_init_Inr[OF assms] by (auto simp: Progress_f_def Let_def)

lemma MultiProgress_init_grouped_as:
  assumes "MultiProgress_init args scheduler f default_executor self start sleeps = Some (Inr (m, s))"
  shows "\<exists>p. Progress_init args scheduler default_executor self start sleeps = Some (Inr (p, s)) \<and>
             grouped_as f m p"
proof -
  from MultiProgress_init_Inr[OF assms] obtain p where
    p: "Progress_init args scheduler default_executor self start sleeps = Some (Inr (p, s))"
    and k: "keys m = valmap_set_groupby (projr \<circ> f) (keys p)"
    and a: "all_keys m = valmap_set_groupby (projr \<circ> f) (all_keys p)"
    and rest: "ident m = ident p" "status m = status p" "func m = f"
      "\<forall>k. k |\<in>| all_keys p \<longrightarrow> \<not> isl (f k)"
    by blast
  have "grouped_as f m p"
    unfolding grouped_as_def
    using rest a Progress_init_keys_subset[OF p]
    by (auto simp: k fmlookup_groupby split: if_splits)
  with p show ?thesis by blast
qed

text \<open>
  C7. When \<^verbatim>\<open>MultiProgress.__init__\<close> succeeds, for any label function, and after any
  sequence of callbacks (the empty one included): the buckets of \<^verbatim>\<open>all_keys\<close> cover the
  \<^verbatim>\<open>all_keys\<close> of the ungrouped tracker built from the same arguments, every key of it lies
  in exactly one bucket, buckets of different labels are disjoint, and the sizes of the
  buckets add up to the size of the ungrouped set; the buckets of the pending \<^verbatim>\<open>keys\<close> are
  disjoint, cover the pending keys of the ungrouped tracker that received the same
  callbacks, and their sizes add up to its number of pending keys; and the two trackers
  have the same status.
\<close>

theorem MultiProgress_partition:
  assumes "MultiProgress_init args scheduler f default_executor self start sleeps = Some (Inr (m, s))"
    and "Progress_init args scheduler default_executor self start sleeps = Some (Inr (p, s'))"
    and "deliver_multi_all (m, s) callbacks = Inr (m', s'')"
  shows "ffUnion (fmran (all_keys m')) = all_keys p \<and>
         (\<forall>k. k |\<in>| all_keys p \<longrightarrow>
            (\<exists>!l. \<exists>b. fmlookup (all_keys m') l = Some b \<and> k |\<in>| b)) \<and>
         (\<forall>l l' b b'. fmlookup (all_keys m') l = Some b \<and> fmlookup (all_keys m') l' = Some b' \<and>
            l \<noteq> l' \<longrightarrow> b |\<inter>| b' = {||}) \<and>
         (\<Sum>l \<in> fset (fmdom (all_keys m')). fcard (the (fmlookup (all_keys m') l)))
            = fcard (all_keys p) \<and>
         ffUnion (fmran (keys m')) = keys (fst (foldl deliver (p, s') callbacks)) \<and>
         (\<forall>l l' b b'. fmlookup (keys m') l = Some b \<and> fmlookup (keys m') l' = Some b' \<and>
            l \<noteq> l' \<longrightarrow> b |\<inter>| b' = {||}) \<and>
         (\<Sum>l \<in> fset (fmdom (keys m')). fcard (the (fmlookup (keys m') l)))
            = fcard (keys (fst (foldl deliver (p, s') callbacks))) \<and>
         status m' = status (fst (foldl deliver (p, s') callbacks))"
proof -
  let ?p = "fst (foldl deliver (p, s') callbacks)"
  from MultiProgress_init_grouped_as[OF assms(1)] assms(2)
  have s: "s' = s" and rel0: "grouped_as f m p" by auto
  have rel: "grouped_as f m' ?p"
    using deliver_simulation[of f "(m, s)" "(p, s')" callbacks "(m', s'')"] rel0 s assms(3)
    by simp
  have ap: "all_keys ?p = all_keys p"
    using foldl_deliver_fields[of "(p, s')" callbacks] by simp
  have a: "all_keys m' = valmap_set_groupby (projr \<circ> f) (all_keys p)"
    using rel ap by (simp add: grouped_as_def)
  have one: "\<exists>!l. \<exists>b. fmlookup (all_keys m') l = Some b \<and> k |\<in>| b" if "k |\<in>| all_keys p" for k
    unfolding a groupby_member using that by auto
  have dis: "b |\<inter>| b' = {||}"
    if "fmlookup (all_keys m') l = Some b \<and> fmlookup (all_keys m') l' = Some b' \<and> l \<noteq> l'"
    for l l' b b'
    using that unfolding a by (auto simp: fmlookup_groupby split: if_splits)
  have cover: "ffUnion (fmran (all_keys m')) = all_keys p"
    unfolding a by (rule groupby_cover)
  have counts:
    "(\<Sum>l \<in> fset (fmdom (all_keys m')). fcard (the (fmlookup (all_keys m') l))) = fcard (all_keys p)"
    unfolding a by (rule groupby_counts)
  have pdis: "b |\<inter>| b' = {||}"
    if "fmlookup (keys m') l = Some b \<and> fmlookup (keys m') l' = Some b' \<and> l \<noteq> l'"
    for l l' b b'
  proof -
    have "b = ffilter (\<lambda>k. projr (f k) = l) (keys ?p)" "b' = ffilter (\<lambda>k. projr (f k) = l') (keys ?p)"
      using that rel unfolding grouped_as_def by blast+
    then show ?thesis using that by auto
  qed
  have st: "status m' = status ?p" using rel by (simp add: grouped_as_def)
  show ?thesis
    using one dis cover counts grouped_as_cover[OF rel] grouped_as_counts[OF rel] pdis st
    by blast
qed

lemma ungrouped_init:
  "Progress_init grouped_args (Some grouped_scheduler) None 1 0 []
     = Some (Inr (ungrouped_tracker, grouped_scheduler\<lparr>diagnostics := [1]\<rparr>))"
  by (auto simp: Progress_init_def wait_for_keys.simps Progress_f_def add_diagnostic_def Let_def
      grouped_args_def grouped_scheduler_def ungrouped_tracker_def grouped_keys_def
      dependent_keys_def dependent_keys_loop.simps truthy_workers_def get_or_empty_def)

lemma rsplit_grouped [simp]:
  "rsplit_hyphen_first ''x-1'' = ''x''"
  "rsplit_hyphen_first ''x-2'' = ''x''"
  "rsplit_hyphen_first ''y-1'' = ''y''"
  by (simp_all add: rsplit_hyphen_first_def)

lemma grouped_init:
  "MultiProgress_init grouped_args (Some grouped_scheduler) key_split None 1 0 []
     = Some (Inr (grouped_tracker, grouped_scheduler\<lparr>diagnostics := [1]\<rparr>))"
  unfolding MultiProgress_init_def ungrouped_init
  by (simp add: group_keys_def ungrouped_tracker_def grouped_tracker_def grouped_keys_def)

lemma fmap_empty_iff: "m = fmempty \<longleftrightarrow> fmdom m = {||}"
  by (metis fmdom_empty fmrestrict_fset_dom fmrestrict_fset_null)

lemma grouped_buckets:
  "fmdom (keys grouped_tracker) = {|''x'', ''y''|}"
  "fmlookup (keys grouped_tracker) ''x'' = Some {|KStr ''x-1'', KStr ''x-2''|}"
  "fmlookup (keys grouped_tracker) ''y'' = Some {|KStr ''y-1''|}"
  by (simp_all add: grouped_tracker_def grouped_keys_def fmlookup_groupby)

lemma MultiProgress_task_finished_bucket:
  assumes "func m key = Inr l" and "fmlookup (keys m) l = Some b" and "key |\<in>| b"
  shows "MultiProgress_task_finished m s key w n =
           Inr (if fBall (fmran (fmupd l (b |-| {|key|}) (keys m))) (\<lambda>s. s = {||})
                then Progress_stop (m\<lparr>keys := fmupd l (b |-| {|key|}) (keys m)\<rparr>) s
                       (Py_None :: unit payload) None
                else (m\<lparr>keys := fmupd l (b |-| {|key|}) (keys m)\<rparr>, s))"
proof -
  have "fmupd l (b |-| {|key|}) (keys m) \<noteq> fmempty"
    by (metis fmempty_lookup fmupd_lookup option.distinct(1))
  moreover have "b \<noteq> {||}" using assms(3) by auto
  ultimately show ?thesis
    using assms by (simp add: MultiProgress_task_finished_def Let_def)
qed

lemma some_bucket_left:
  "fmlookup m l = Some b \<Longrightarrow> b \<noteq> {||} \<Longrightarrow> \<not> fBall (fmran m) (\<lambda>s. s = {||})"
  by (auto dest: fmranI)

lemma no_bucket_left:
  assumes "\<And>l b. fmlookup m l = Some b \<Longrightarrow> b = {||}"
  shows "fBall (fmran m) (\<lambda>s. s = {||})"
proof (rule fBallI)
  fix s assume "s |\<in>| fmran m"
  then obtain l where "fmlookup m l = Some s" by (auto simp: fmlookup_ran_iff)
  then show "s = {||}" by (rule assms)
qed

lemma grouped_step_x1:
  "MultiProgress_task_finished grouped_tracker s (KStr ''x-1'') w n = Inr (grouped_after_x1, s)"
proof -
  have f: "func grouped_tracker (KStr ''x-1'') = Inr ''x''"
    by (simp add: grouped_tracker_def)
  have d: "{|KStr ''x-1'', KStr ''x-2''|} |-| {|KStr ''x-1''|} = {|KStr ''x-2''|}"
    by auto
  have left: "\<not> fBall (fmran (fmupd ''x'' {|KStr ''x-2''|} (keys grouped_tracker))) (\<lambda>s. s = {||})"
    by (rule some_bucket_left[of _ "''x''" "{|KStr ''x-2''|}"]) simp_all
  show ?thesis
    using MultiProgress_task_finished_bucket[OF f grouped_buckets(2), of s w n] left
    by (simp add: d grouped_after_x1_def)
qed

lemma grouped_step_x2:
  "MultiProgress_task_finished grouped_after_x1 s (KStr ''x-2'') w n = Inr (grouped_after_x2, s)"
proof -
  have f: "func grouped_after_x1 (KStr ''x-2'') = Inr ''x''"
    by (simp add: grouped_after_x1_def grouped_tracker_def)
  have l: "fmlookup (keys grouped_after_x1) ''x'' = Some {|KStr ''x-2''|}"
    by (simp add: grouped_after_x1_def)
  have left: "\<not> fBall (fmran (fmupd ''x'' {||} (keys grouped_after_x1))) (\<lambda>s. s = {||})"
    by (rule some_bucket_left[of _ "''y''" "{|KStr ''y-1''|}"])
       (simp_all add: grouped_after_x1_def grouped_buckets)
  show ?thesis
    using MultiProgress_task_finished_bucket[OF f l, of s w n] left
    by (simp add: grouped_after_x2_def)
qed

lemma grouped_step_y1:
  "MultiProgress_task_finished grouped_after_x2 s (KStr ''y-1'') w n
     = Inr (grouped_after_y1, s\<lparr>diagnostics := remove1 1 (diagnostics s)\<rparr>)"
proof -
  have f: "func grouped_after_x2 (KStr ''y-1'') = Inr ''y''"
    by (simp add: grouped_after_x2_def grouped_after_x1_def grouped_tracker_def)
  have l: "fmlookup (keys grouped_after_x2) ''y'' = Some {|KStr ''y-1''|}"
    by (simp add: grouped_after_x2_def grouped_after_x1_def grouped_buckets)
  have i: "ident grouped_after_x2 = 1"
    by (simp add: grouped_after_x2_def grouped_after_x1_def grouped_tracker_def)
  have none: "fBall (fmran (fmupd ''y'' {||} (keys grouped_after_x2))) (\<lambda>s. s = {||})"
  proof (rule no_bucket_left)
    fix l b assume lb: "fmlookup (fmupd ''y'' {||} (keys grouped_after_x2)) l = Some b"
    have "l |\<in>| {|''x'', ''y''|}"
      using fmdomI[OF lb] by (auto simp: grouped_after_x2_def grouped_after_x1_def grouped_buckets)
    then show "b = {||}"
      using lb by (auto simp: grouped_after_x2_def)
  qed
  show ?thesis
    using MultiProgress_task_finished_bucket[OF f l, of s w n] none i
    by (simp add: grouped_after_y1_def Progress_stop_def remove1_idem)
qed

theorem MultiProgress_partition_witness:
  "MultiProgress_init grouped_args (Some grouped_scheduler) key_split None 1 0 []
     = Some (Inr (grouped_tracker, grouped_scheduler\<lparr>diagnostics := [1]\<rparr>)) \<and>
   Progress_init grouped_args (Some grouped_scheduler) None 1 0 []
     = Some (Inr (ungrouped_tracker, grouped_scheduler\<lparr>diagnostics := [1]\<rparr>)) \<and>
   deliver_multi_all (grouped_tracker, grouped_scheduler\<lparr>diagnostics := [1]\<rparr>)
       [Task_finished (KStr ''x-1'') ''worker-1'' 8 :: (pykey, string, string) callback]
     = Inr (grouped_after_x1, grouped_scheduler\<lparr>diagnostics := [1]\<rparr>) \<and>
   ffUnion (fmran (all_keys grouped_after_x1)) = all_keys ungrouped_tracker \<and>
   (\<Sum>l \<in> fset (fmdom (all_keys grouped_after_x1)).
       fcard (the (fmlookup (all_keys grouped_after_x1) l))) = fcard (all_keys ungrouped_tracker) \<and>
   ffUnion (fmran (keys grouped_after_x1))
     = keys (fst (foldl deliver (ungrouped_tracker, grouped_scheduler\<lparr>diagnostics := [1]\<rparr>)
                    [Task_finished (KStr ''x-1'') ''worker-1'' 8 :: (pykey, string, string) callback])) \<and>
   (\<Sum>l \<in> fset (fmdom (keys grouped_after_x1)).
       fcard (the (fmlookup (keys grouped_after_x1) l)))
     = fcard (keys (fst (foldl deliver (ungrouped_tracker, grouped_scheduler\<lparr>diagnostics := [1]\<rparr>)
                    [Task_finished (KStr ''x-1'') ''worker-1'' 8 :: (pykey, string, string) callback])))"
proof -
  have run: "deliver_multi_all (grouped_tracker, grouped_scheduler\<lparr>diagnostics := [1]\<rparr>)
       [Task_finished (KStr ''x-1'') ''worker-1'' 8 :: (pykey, string, string) callback]
     = Inr (grouped_after_x1, grouped_scheduler\<lparr>diagnostics := [1]\<rparr>)"
    by (simp add: grouped_step_x1)
  note t = MultiProgress_partition[OF grouped_init ungrouped_init run]
  note a = t[THEN conjunct1]
  note b = t[THEN conjunct2, THEN conjunct2, THEN conjunct2, THEN conjunct1]
  note c = t[THEN conjunct2, THEN conjunct2, THEN conjunct2, THEN conjunct2, THEN conjunct1]
  note d = t[THEN conjunct2, THEN conjunct2, THEN conjunct2, THEN conjunct2, THEN conjunct2,
             THEN conjunct2, THEN conjunct1]
  show ?thesis
    by (intro conjI) (rule grouped_init ungrouped_init run a b c d)+
qed

text \<open>
  C8. With the default label function \<^verbatim>\<open>key_split\<close>, the keys \<^verbatim>\<open>x-1\<close>, \<^verbatim>\<open>x-2\<close>, \<^verbatim>\<open>y-1\<close> are
  grouped as \<^verbatim>\<open>{x: {x-1, x-2}, y: {y-1}}\<close>; after \<^verbatim>\<open>task_finished\<close> for \<^verbatim>\<open>x-1\<close> and for
  \<^verbatim>\<open>x-2\<close> the bucket of \<^verbatim>\<open>x\<close> is empty and the status is still \<^verbatim>\<open>None\<close> (active); after
  \<^verbatim>\<open>task_finished\<close> for \<^verbatim>\<open>y-1\<close> the status is \<^verbatim>\<open>'finished'\<close>.
\<close>

theorem grouped_scenario:
  "MultiProgress_init grouped_args (Some grouped_scheduler) key_split None 1 0 []
     = Some (Inr (grouped_tracker, grouped_scheduler\<lparr>diagnostics := [1]\<rparr>)) \<and>
   fmdom (keys grouped_tracker) = {|''x'', ''y''|} \<and>
   fmlookup (keys grouped_tracker) ''x'' = Some {|KStr ''x-1'', KStr ''x-2''|} \<and>
   fmlookup (keys grouped_tracker) ''y'' = Some {|KStr ''y-1''|} \<and>
   status grouped_tracker = None \<and>
   MultiProgress_task_finished grouped_tracker (grouped_scheduler\<lparr>diagnostics := [1]\<rparr>)
       (KStr ''x-1'') ''worker-1'' 8
     = Inr (grouped_after_x1, grouped_scheduler\<lparr>diagnostics := [1]\<rparr>) \<and>
   status grouped_after_x1 = None \<and>
   MultiProgress_task_finished grouped_after_x1 (grouped_scheduler\<lparr>diagnostics := [1]\<rparr>)
       (KStr ''x-2'') ''worker-1'' 8
     = Inr (grouped_after_x2, grouped_scheduler\<lparr>diagnostics := [1]\<rparr>) \<and>
   fmlookup (keys grouped_after_x2) ''x'' = Some {||} \<and>
   fmlookup (keys grouped_after_x2) ''y'' = Some {|KStr ''y-1''|} \<and>
   status grouped_after_x2 = None \<and>
   MultiProgress_task_finished grouped_after_x2 (grouped_scheduler\<lparr>diagnostics := [1]\<rparr>)
       (KStr ''y-1'') ''worker-1'' 8
     = Inr (grouped_after_y1, grouped_scheduler\<lparr>diagnostics := []\<rparr>) \<and>
   status grouped_after_y1 = Some Finished"
proof -
  have st: "status grouped_tracker = None" "status grouped_after_x1 = None"
    "status grouped_after_x2 = None" "status grouped_after_y1 = Some Finished"
    by (simp_all add: grouped_after_y1_def grouped_after_x2_def grouped_after_x1_def
        grouped_tracker_def)
  have b2: "fmlookup (keys grouped_after_x2) ''x'' = Some {||}"
    "fmlookup (keys grouped_after_x2) ''y'' = Some {|KStr ''y-1''|}"
    by (simp_all add: grouped_after_x2_def grouped_after_x1_def grouped_buckets)
  have last: "MultiProgress_task_finished grouped_after_x2
                (grouped_scheduler\<lparr>diagnostics := [1]\<rparr>) (KStr ''y-1'') ''worker-1'' 8
              = Inr (grouped_after_y1, grouped_scheduler\<lparr>diagnostics := []\<rparr>)"
    by (simp add: grouped_step_y1)
  show ?thesis
    using grouped_init grouped_buckets st b2 last
    by (simp only: grouped_step_x1 grouped_step_x2 simp_thms)
qed

section \<open>Properties of the formatter\<close>

text \<open>
  C9, as stated: \<^verbatim>\<open>format_time(3661)\<close> is \<^verbatim>\<open>"1hr 1min  1.0s"\<close>. The hours and the minutes
  are formatted with \<^verbatim>\<open>{:2.0f}\<close>, padded to two characters, so the result starts with a
  space and has two spaces before \<^verbatim>\<open>1min\<close>.
\<close>

theorem format_time_hours_counterexample:
  "format_time 3661 \<noteq> ''1hr 1min  1.0s''"
  by code_simp

text \<open>
  C9, amended: \<^verbatim>\<open>format_time(10.4)\<close> is \<^verbatim>\<open>"10.4s"\<close>, \<^verbatim>\<open>format_time(1000.4)\<close> is
  \<^verbatim>\<open>"16min 40.4s"\<close>, and \<^verbatim>\<open>format_time(3661)\<close> is \<^verbatim>\<open>" 1hr  1min  1.0s"\<close>.
\<close>

theorem format_time_examples:
  "format_time float_10_4 = ''10.4s'' \<and>
   format_time float_1000_4 = ''16min 40.4s'' \<and>
   format_time 3661 = '' 1hr  1min  1.0s''"
  by code_simp

end
